theory Spec2Isabelle
  imports Main "HOL-Library.Sublist"
begin

section \<open>The descriptor interface of the schema library\<close>

text \<open>
  The generator reads its schema through the descriptor classes of the protocol-buffer
  library (\<^verbatim>\<open>Descriptor\<close>, \<^verbatim>\<open>FieldDescriptor\<close>, \<^verbatim>\<open>DescriptorPool\<close>). They are not part
  of the repository; the model takes them as data. A field's type is the library's
  enumeration \<^verbatim>\<open>FieldDescriptor::Type\<close>, whose numeric values are 1 to 18 in the order below.
\<close>

datatype FieldType =
    TYPE_DOUBLE | TYPE_FLOAT | TYPE_INT64 | TYPE_UINT64 | TYPE_INT32 | TYPE_FIXED64
  | TYPE_FIXED32 | TYPE_BOOL | TYPE_STRING | TYPE_GROUP | TYPE_MESSAGE | TYPE_BYTES
  | TYPE_UINT32 | TYPE_ENUM | TYPE_SFIXED32 | TYPE_SFIXED64 | TYPE_SINT32 | TYPE_SINT64

text \<open>\<^verbatim>\<open>static_cast<int>(type)\<close>: the numeric value of the enumerator.\<close>

fun type_tag :: "FieldType \<Rightarrow> int" where
  "type_tag TYPE_DOUBLE = 1"
| "type_tag TYPE_FLOAT = 2"
| "type_tag TYPE_INT64 = 3"
| "type_tag TYPE_UINT64 = 4"
| "type_tag TYPE_INT32 = 5"
| "type_tag TYPE_FIXED64 = 6"
| "type_tag TYPE_FIXED32 = 7"
| "type_tag TYPE_BOOL = 8"
| "type_tag TYPE_STRING = 9"
| "type_tag TYPE_GROUP = 10"
| "type_tag TYPE_MESSAGE = 11"
| "type_tag TYPE_BYTES = 12"
| "type_tag TYPE_UINT32 = 13"
| "type_tag TYPE_ENUM = 14"
| "type_tag TYPE_SFIXED32 = 15"
| "type_tag TYPE_SFIXED64 = 16"
| "type_tag TYPE_SINT32 = 17"
| "type_tag TYPE_SINT64 = 18"

text \<open>\<^verbatim>\<open>FieldDescriptor::type_name()\<close>: the library's lower-case name of the type.\<close>

fun field_type_name :: "FieldType \<Rightarrow> string" where
  "field_type_name TYPE_DOUBLE = ''double''"
| "field_type_name TYPE_FLOAT = ''float''"
| "field_type_name TYPE_INT64 = ''int64''"
| "field_type_name TYPE_UINT64 = ''uint64''"
| "field_type_name TYPE_INT32 = ''int32''"
| "field_type_name TYPE_FIXED64 = ''fixed64''"
| "field_type_name TYPE_FIXED32 = ''fixed32''"
| "field_type_name TYPE_BOOL = ''bool''"
| "field_type_name TYPE_STRING = ''string''"
| "field_type_name TYPE_GROUP = ''group''"
| "field_type_name TYPE_MESSAGE = ''message''"
| "field_type_name TYPE_BYTES = ''bytes''"
| "field_type_name TYPE_UINT32 = ''uint32''"
| "field_type_name TYPE_ENUM = ''enum''"
| "field_type_name TYPE_SFIXED32 = ''sfixed32''"
| "field_type_name TYPE_SFIXED64 = ''sfixed64''"
| "field_type_name TYPE_SINT32 = ''sint32''"
| "field_type_name TYPE_SINT64 = ''sint64''"

datatype Label = LABEL_OPTIONAL | LABEL_REQUIRED | LABEL_REPEATED

text \<open>
  A field descriptor. \<open>message_type\<close> and \<open>enum_type\<close> are the library's pointers to the
  descriptor of the field's message or enum type, here the full name of that type
  (\<open>None\<close> is the null pointer the library returns for a field of another type).
\<close>

record FieldDescriptor =
  field_name :: string
  field_type :: FieldType
  label :: Label
  message_type :: "string option"
  enum_type :: "string option"

definition is_repeated :: "FieldDescriptor \<Rightarrow> bool" where
  "is_repeated f = (label f = LABEL_REPEATED)"

definition is_optional :: "FieldDescriptor \<Rightarrow> bool" where
  "is_optional f = (label f = LABEL_OPTIONAL)"

record Descriptor =
  desc_name :: string
  desc_full_name :: string
  desc_fields :: "FieldDescriptor list"

text \<open>
  The pool resolves a full message name to its descriptor
  (\<^verbatim>\<open>FindMessageTypeByName\<close>; \<open>None\<close> is the null pointer).
\<close>

type_synonym DescriptorPool = "string \<Rightarrow> Descriptor option"

record FileDescriptor =
  package :: string

section \<open>Errors\<close>

text \<open>
  \<open>runtime_error\<close> is the \<^verbatim>\<open>std::runtime_error\<close> the source throws, with its message.
  The other values stand for behaviour the C++ leaves undefined or for the checks of
  \<^verbatim>\<open>assert\<close>: \<open>signed_overflow\<close> for \<^verbatim>\<open>++stateCounter\<close> at \<^verbatim>\<open>INT_MAX\<close>, \<open>null_dereference\<close>
  for the use of a null pointer, \<open>assertion_failed\<close> for an \<^verbatim>\<open>assert\<close> that does not hold.
  \<open>endless_loop\<close> is a loop of the source that never ends.
  \<open>out_of_fuel\<close> is the model's: the recursion of \<^verbatim>\<open>parseMessageDescRec\<close> over nested
  message types has no bound in the source (a message type that contains itself never
  lets it return), so the model counts the nesting depth down and stops at zero.
\<close>

datatype error =
    runtime_error string
  | signed_overflow
  | null_dereference
  | assertion_failed
  | endless_loop
  | out_of_fuel

text \<open>Sequencing of steps that can fail, and the use of a pointer that can be null.\<close>

definition bindE :: "error + 'a \<Rightarrow> ('a \<Rightarrow> error + 'b) \<Rightarrow> error + 'b" where
  "bindE m f = (case m of Inl e \<Rightarrow> Inl e | Inr x \<Rightarrow> f x)"

fun mapE :: "('a \<Rightarrow> error + 'b) \<Rightarrow> 'a list \<Rightarrow> error + 'b list" where
  "mapE f [] = Inr []"
| "mapE f (x # xs) = bindE (f x) (\<lambda>y. bindE (mapE f xs) (\<lambda>ys. Inr (y # ys)))"

definition deref :: "'a option \<Rightarrow> error + 'a" where
  "deref p = (case p of None \<Rightarrow> Inl null_dereference | Some x \<Rightarrow> Inr x)"

section \<open>Decimal numbers\<close>

text \<open>\<^verbatim>\<open>std::to_string(int)\<close> and the \<^verbatim>\<open>%d\<close> of \<^verbatim>\<open>fprintf\<close>.\<close>

definition digit_char :: "nat \<Rightarrow> char" where
  "digit_char d = ''0123456789'' ! (d mod 10)"

fun digits :: "nat \<Rightarrow> string" where
  "digits n = (if n < 10 then [digit_char n] else digits (n div 10) @ [digit_char (n mod 10)])"

definition to_string :: "int \<Rightarrow> string" where
  "to_string i = (if i < 0 then CHR ''-'' # digits (nat (- i)) else digits (nat i))"

section \<open>The parse graph\<close>

datatype NodeType = BOOL | LONG | DOUBLE | STRING | OUTSIDE_OBJECT | INSIDE_OBJECT | ARRAY

text \<open>
  \<^verbatim>\<open>getNodeTypeForProtoType\<close>: the node type of a field type; \<^verbatim>\<open>TYPE_UINT64\<close>,
  \<^verbatim>\<open>TYPE_BYTES\<close> and every type without a case of its own (\<^verbatim>\<open>TYPE_GROUP\<close>) throw.
\<close>

fun getNodeTypeForProtoType :: "FieldType \<Rightarrow> error + NodeType" where
  "getNodeTypeForProtoType TYPE_BOOL = Inr BOOL"
| "getNodeTypeForProtoType TYPE_INT32 = Inr LONG"
| "getNodeTypeForProtoType TYPE_INT64 = Inr LONG"
| "getNodeTypeForProtoType TYPE_UINT32 = Inr LONG"
| "getNodeTypeForProtoType TYPE_FIXED32 = Inr LONG"
| "getNodeTypeForProtoType TYPE_FIXED64 = Inr LONG"
| "getNodeTypeForProtoType TYPE_SFIXED32 = Inr LONG"
| "getNodeTypeForProtoType TYPE_SFIXED64 = Inr LONG"
| "getNodeTypeForProtoType TYPE_SINT32 = Inr LONG"
| "getNodeTypeForProtoType TYPE_SINT64 = Inr LONG"
| "getNodeTypeForProtoType TYPE_FLOAT = Inr DOUBLE"
| "getNodeTypeForProtoType TYPE_DOUBLE = Inr DOUBLE"
| "getNodeTypeForProtoType TYPE_STRING = Inr STRING"
| "getNodeTypeForProtoType TYPE_MESSAGE = Inr OUTSIDE_OBJECT"
| "getNodeTypeForProtoType TYPE_ENUM = Inr LONG"
| "getNodeTypeForProtoType t =
     Inl (runtime_error (''Unsupported protobuf type '' @ to_string (type_tag t)))"

text \<open>
  \<^verbatim>\<open>getTypeNameForFieldDesc\<close>: the name of the message type for a message field
  (through the field's \<^verbatim>\<open>message_type()\<close> pointer), the library's type name otherwise.
\<close>

definition getTypeNameForFieldDesc :: "DescriptorPool \<Rightarrow> FieldDescriptor \<Rightarrow> error + string" where
  "getTypeNameForFieldDesc pl fieldDesc =
     (if field_type fieldDesc = TYPE_MESSAGE then
        (case message_type fieldDesc of
           None \<Rightarrow> Inl null_dereference
         | Some m \<Rightarrow> (case pl m of None \<Rightarrow> Inl null_dereference | Some d \<Rightarrow> Inr (desc_name d)))
      else Inr (field_type_name (field_type fieldDesc)))"

text \<open>
  \<^verbatim>\<open>struct Node\<close>. A \<^verbatim>\<open>Node*\<close> is an address: the index of the node in the graph's list
  of nodes; \<open>None\<close> is the null pointer. \<open>type\<close> is \<open>None\<close> until the source assigns it
  (\<^verbatim>\<open>new Node()\<close> zeroes it, and zero is no enumerator of \<^verbatim>\<open>NodeType\<close>).
\<close>

record Node =
  parent :: "nat option"
  children :: "nat list"
  type :: "NodeType option"
  state :: int
  name :: string
  full_name :: string
  type_name :: string
  desc :: "Descriptor option"
  field :: "FieldDescriptor option"

text \<open>\<^verbatim>\<open>new Node()\<close>: every member zero, null or empty.\<close>

definition new_Node :: Node where
  "new_Node = \<lparr>parent = None, children = [], type = None, state = 0, name = [],
     full_name = [], type_name = [], desc = None, field = None\<rparr>"

text \<open>
  \<^verbatim>\<open>struct Graph\<close>. \<open>nodes\<close> holds every node of the graph: the member \<^verbatim>\<open>root\<close> at
  address 0, and each node that \<^verbatim>\<open>addChild\<close> allocates at the next address. The category
  lists hold addresses, as the source's vectors hold pointers.
\<close>

record Graph =
  fname :: string
  msgName :: string
  pool :: DescriptorPool
  fileDesc :: FileDescriptor
  msgDesc :: Descriptor
  stateCounter :: int
  nodes :: "Node list"
  all_nodes :: "nat list"
  null_nodes :: "nat list"
  bool_nodes :: "nat list"
  long_nodes :: "nat list"
  double_nodes :: "nat list"
  string_nodes :: "nat list"
  object_nodes :: "nat list"
  key_nodes :: "nat list"
  array_nodes :: "nat list"

definition root :: nat where
  "root = 0"

definition node_at :: "Graph \<Rightarrow> nat \<Rightarrow> Node" where
  "node_at g a = nodes g ! a"

text \<open>An assignment to members of the node at address \<open>a\<close>.\<close>

definition modify :: "nat \<Rightarrow> (Node \<Rightarrow> Node) \<Rightarrow> Graph \<Rightarrow> Graph" where
  "modify a f g = g\<lparr>nodes := (nodes g)[a := f (nodes g ! a)]\<rparr>"

definition INT_MAX :: int where
  "INT_MAX = 2147483647"

text \<open>
  \<^verbatim>\<open>Graph::addChild\<close>: allocate a node, append it to the children of \<open>node\<close>, set its
  parent and give it the next state number. Returns the new node's address.
\<close>

definition addChild :: "nat \<Rightarrow> Graph \<Rightarrow> error + (nat \<times> Graph)" where
  "addChild node g =
     (let child = length (nodes g);
          g1 = g\<lparr>nodes := nodes g @ [new_Node]\<rparr>;
          g2 = modify node (\<lambda>n. n\<lparr>children := children n @ [child]\<rparr>) g1;
          g3 = modify child (\<lambda>c. c\<lparr>parent := Some node\<rparr>) g2
      in if stateCounter g3 = INT_MAX then Inl signed_overflow
         else let g4 = g3\<lparr>stateCounter := stateCounter g3 + 1\<rparr>
              in Inr (child, modify child (\<lambda>c. c\<lparr>state := stateCounter g4\<rparr>) g4))"

text \<open>\<^verbatim>\<open>Graph::addNodeToTypeLists\<close>.\<close>

definition addNodeToTypeLists :: "nat \<Rightarrow> Graph \<Rightarrow> error + Graph" where
  "addNodeToTypeLists node g =
     (if state (node_at g node) = 0 then Inl assertion_failed
      else
        let g1 = g\<lparr>all_nodes := all_nodes g @ [node]\<rparr>;
            g2 = (case field (node_at g1 node) of
                    None \<Rightarrow> g1
                  | Some f \<Rightarrow> if is_optional f then g1\<lparr>null_nodes := null_nodes g1 @ [node]\<rparr> else g1)
        in Inr (case type (node_at g2 node) of
                  None \<Rightarrow> g2
                | Some BOOL \<Rightarrow> g2\<lparr>bool_nodes := bool_nodes g2 @ [node], long_nodes := long_nodes g2 @ [node]\<rparr>
                | Some LONG \<Rightarrow> g2\<lparr>long_nodes := long_nodes g2 @ [node]\<rparr>
                | Some DOUBLE \<Rightarrow> g2\<lparr>double_nodes := double_nodes g2 @ [node], long_nodes := long_nodes g2 @ [node]\<rparr>
                | Some STRING \<Rightarrow> g2\<lparr>string_nodes := string_nodes g2 @ [node]\<rparr>
                | Some INSIDE_OBJECT \<Rightarrow> g2\<lparr>object_nodes := object_nodes g2 @ [node]\<rparr>
                | Some OUTSIDE_OBJECT \<Rightarrow> g2\<lparr>key_nodes := key_nodes g2 @ [node]\<rparr>
                | Some ARRAY \<Rightarrow> g2\<lparr>array_nodes := array_nodes g2 @ [node]\<rparr>))"

text \<open>\<^verbatim>\<open>Graph::injectArrayNode\<close>: the element node under the array node \<open>node\<close>.\<close>

definition injectArrayNode ::
  "Descriptor \<Rightarrow> FieldDescriptor \<Rightarrow> NodeType \<Rightarrow> nat \<Rightarrow> Graph \<Rightarrow> error + (nat \<times> Graph)" where
  "injectArrayNode dsc fieldDesc ty node g =
     (case addChild node g of
        Inl e \<Rightarrow> Inl e
      | Inr (arrChild, g1) \<Rightarrow>
          (case getTypeNameForFieldDesc (pool g1) fieldDesc of
             Inl e \<Rightarrow> Inl e
           | Inr tn \<Rightarrow>
               (case addNodeToTypeLists arrChild
                       (modify arrChild (\<lambda>c. c\<lparr>name := field_name fieldDesc,
                           full_name := full_name (node_at g1 node) @ ''[]'',
                           type := Some ty,
                           type_name := tn,
                           field := Some fieldDesc,
                           desc := Some dsc\<rparr>) g1) of
                  Inl e \<Rightarrow> Inl e
                | Inr g2 \<Rightarrow> Inr (arrChild, g2))))"

text \<open>\<^verbatim>\<open>Graph::injectObjectNode\<close>: the node inside the braces, under the key node.\<close>

definition injectObjectNode ::
  "Descriptor \<Rightarrow> FieldDescriptor \<Rightarrow> nat \<Rightarrow> Graph \<Rightarrow> error + (nat \<times> Graph)" where
  "injectObjectNode dsc fieldDesc keyNode g =
     (case addChild keyNode g of
        Inl e \<Rightarrow> Inl e
      | Inr (objNode, g1) \<Rightarrow>
          (case addNodeToTypeLists objNode
                  (modify objNode (\<lambda>c. c\<lparr>name := name (node_at g1 keyNode),
                      full_name := full_name (node_at g1 keyNode) @ ''.'',
                      type := Some INSIDE_OBJECT,
                      type_name := type_name (node_at g1 keyNode),
                      field := Some fieldDesc,
                      desc := Some dsc\<rparr>) g1) of
             Inl e \<Rightarrow> Inl e
           | Inr g2 \<Rightarrow> Inr (objNode, g2)))"

text \<open>
  \<^verbatim>\<open>Graph::parseMessageDescRec\<close>. The \<^verbatim>\<open>for\<close> loop over the fields of \<open>dsc\<close> is the
  recursion over the list of the fields still to visit (the call from outside passes
  \<open>desc_fields dsc\<close>); the recursive call of the source on the message type of a field takes one
  unit of fuel.
\<close>

fun parseMessageDescRec ::
  "nat \<Rightarrow> Descriptor \<Rightarrow> FieldDescriptor list \<Rightarrow> nat \<Rightarrow> Graph \<Rightarrow> error + Graph" where
  "parseMessageDescRec fuel dsc [] node g = Inr g"
| "parseMessageDescRec fuel dsc (fieldDesc # rest) node g =
     (case getNodeTypeForProtoType (field_type fieldDesc) of
        Inl e \<Rightarrow> Inl e
      | Inr ty \<Rightarrow>
     (case addChild node g of
        Inl e \<Rightarrow> Inl e
      | Inr (child, g1) \<Rightarrow>
     (let g2 = modify child (\<lambda>c. c\<lparr>name := field_name fieldDesc,
                  full_name := full_name (node_at g1 node) @ field_name fieldDesc,
                  field := Some fieldDesc,
                  desc := Some dsc\<rparr>) g1
      in
     (case
        (if \<not> is_repeated fieldDesc then
           (case getTypeNameForFieldDesc (pool g2) fieldDesc of
              Inl e \<Rightarrow> Inl e
            | Inr tn \<Rightarrow>
           (case addNodeToTypeLists child
                   (modify child (\<lambda>c. c\<lparr>type := Some ty, type_name := tn\<rparr>) g2) of
              Inl e \<Rightarrow> Inl e
            | Inr g3 \<Rightarrow>
                if ty = OUTSIDE_OBJECT then
                  (case injectObjectNode dsc fieldDesc child g3 of
                     Inl e \<Rightarrow> Inl e
                   | Inr (objChild, g4) \<Rightarrow>
                       (case message_type fieldDesc of
                          None \<Rightarrow> Inl null_dereference
                        | Some m \<Rightarrow>
                       (case pool g4 m of
                          None \<Rightarrow> Inl null_dereference
                        | Some sub \<Rightarrow>
                       (case fuel of
                          0 \<Rightarrow> Inl out_of_fuel
                        | Suc k \<Rightarrow> parseMessageDescRec k sub (desc_fields sub) objChild g4))))
                else Inr g3))
         else
           (case getTypeNameForFieldDesc (pool g2) fieldDesc of
              Inl e \<Rightarrow> Inl e
            | Inr tn \<Rightarrow>
           (case addNodeToTypeLists child
                   (modify child (\<lambda>c. c\<lparr>type := Some ARRAY,
                       type_name := ''['' @ tn @ '']''\<rparr>) g2) of
              Inl e \<Rightarrow> Inl e
            | Inr g3 \<Rightarrow>
                (case injectArrayNode dsc fieldDesc ty child g3 of
                   Inl e \<Rightarrow> Inl e
                 | Inr (arrChild, g4) \<Rightarrow>
                     if ty = OUTSIDE_OBJECT then
                       (case injectObjectNode dsc fieldDesc arrChild g4 of
                          Inl e \<Rightarrow> Inl e
                        | Inr (objChild, g5) \<Rightarrow>
                            (case message_type fieldDesc of
                               None \<Rightarrow> Inl null_dereference
                             | Some m \<Rightarrow>
                            (case pool g5 m of
                               None \<Rightarrow> Inl null_dereference
                             | Some sub \<Rightarrow>
                            (case fuel of
                               0 \<Rightarrow> Inl out_of_fuel
                             | Suc k \<Rightarrow> parseMessageDescRec k sub (desc_fields sub) objChild g5))))
                     else Inr g4)))) of
        Inl e \<Rightarrow> Inl e
      | Inr g' \<Rightarrow> parseMessageDescRec fuel dsc rest node g'))))"

section \<open>Loading the schema\<close>

text \<open>
  What the constructor of \<^verbatim>\<open>Graph\<close> asks of the file system and of the schema library:
  whether \<^verbatim>\<open>open\<close> succeeds on a path, whether the library's parser accepts the file, and
  what \<^verbatim>\<open>pool.BuildFile\<close> returns for it (\<open>None\<close> is the null pointer; otherwise the file
  descriptor and the messages the pool then holds). \<open>fopen_w\<close> says whether
  \<^verbatim>\<open>fopen(name, "w")\<close> returns a stream.
\<close>

record World =
  open_rdonly :: "string \<Rightarrow> bool"
  Parse :: "string \<Rightarrow> bool"
  BuildFile :: "string \<Rightarrow> (FileDescriptor \<times> DescriptorPool) option"
  fopen_w :: "string \<Rightarrow> bool"

text \<open>
  The constructor \<^verbatim>\<open>Graph::Graph\<close>: the root takes state 1 from the counter, then the
  schema is loaded; each failure throws.
\<close>

definition Graph_init :: "World \<Rightarrow> string \<Rightarrow> string \<Rightarrow> error + Graph" where
  "Graph_init w fn mn =
     (if \<not> open_rdonly w fn then Inl (runtime_error (''Unable to open proto file '' @ fn))
      else if \<not> Parse w fn then Inl (runtime_error (''Unable to parse proto file '' @ fn))
      else
        (case BuildFile w fn of
           None \<Rightarrow> Inl (runtime_error (''Unable to load proto file '' @ fn))
         | Some (fd, pl) \<Rightarrow>
             (case pl mn of
                None \<Rightarrow> Inl (runtime_error (''Unable to find message type '' @ mn))
              | Some md \<Rightarrow>
                  Inr \<lparr>fname = fn, msgName = mn, pool = pl, fileDesc = fd, msgDesc = md,
                    stateCounter = 1,
                    nodes = [new_Node\<lparr>state := 1\<rparr>],
                    all_nodes = [], null_nodes = [], bool_nodes = [], long_nodes = [],
                    double_nodes = [], string_nodes = [], object_nodes = [], key_nodes = [],
                    array_nodes = []\<rparr>)))"

text \<open>\<^verbatim>\<open>Graph::parseMessageDesc\<close>.\<close>

definition parseMessageDesc :: "nat \<Rightarrow> Graph \<Rightarrow> error + Graph" where
  "parseMessageDesc fuel g =
     (let dsc = msgDesc g;
          g1 = modify root (\<lambda>r. r\<lparr>parent := None,
                 name := ''.'',
                 full_name := ''.'',
                 type_name := desc_name dsc,
                 type := Some INSIDE_OBJECT,
                 desc := Some dsc,
                 field := None\<rparr>) g
      in (case addNodeToTypeLists root g1 of
            Inl e \<Rightarrow> Inl e
          | Inr g2 \<Rightarrow> parseMessageDescRec fuel dsc (desc_fields dsc) root g2))"

text \<open>
  The graph as \<^verbatim>\<open>main\<close> builds it: the constructor, then \<^verbatim>\<open>parseMessageDesc\<close>.
\<close>

definition build :: "nat \<Rightarrow> World \<Rightarrow> string \<Rightarrow> string \<Rightarrow> error + Graph" where
  "build fuel w fn mn =
     (case Graph_init w fn mn of
        Inl e \<Rightarrow> Inl e
      | Inr g \<Rightarrow> parseMessageDesc fuel g)"

section \<open>Strings\<close>

text \<open>
  \<^verbatim>\<open>replace_all\<close>: every occurrence of \<open>from\<close>, found from left to right and not
  overlapping, becomes \<open>to\<close>. With an empty \<open>from\<close> the source's loop finds a match at every
  position and never ends; the model's value is \<open>None\<close> there.
\<close>

function replace_all :: "string \<Rightarrow> string \<Rightarrow> string \<Rightarrow> string option" where
  "replace_all str from to =
     (if from = [] then None
      else if str = [] then Some []
      else if take (length from) str = from then
        map_option ((@) to) (replace_all (drop (length from) str) from to)
      else map_option ((#) (hd str)) (replace_all (tl str) from to))"
  by pat_completeness auto
termination
  by (relation "measure (\<lambda>(str, from, to). length str)") auto

text \<open>\<^verbatim>\<open>split\<close>: the items \<^verbatim>\<open>std::getline\<close> reads up to each delimiter, the empty ones left out
  unless \<open>include_empty\<close>.\<close>

function getlines :: "string \<Rightarrow> char \<Rightarrow> string list" where
  "getlines str delim =
     (if str = [] then []
      else takeWhile (\<lambda>c. c \<noteq> delim) str #
        (case dropWhile (\<lambda>c. c \<noteq> delim) str of
           [] \<Rightarrow> []
         | d # rest \<Rightarrow> getlines rest delim))"
  by pat_completeness auto
termination
proof (relation "measure (\<lambda>(str, delim). length str)")
  show "wf (measure (\<lambda>(str, delim). length str))"
    by simp
next
  fix str :: string and delim d :: char and rest :: string
  assume "dropWhile (\<lambda>c. c \<noteq> delim) str = d # rest"
  then have "length (d # rest) \<le> length str"
    using length_dropWhile_le [of "\<lambda>c. c \<noteq> delim" str] by simp
  then show "((rest, delim), (str, delim)) \<in> measure (\<lambda>(str, delim). length str)"
    by simp
qed

definition split :: "string \<Rightarrow> char \<Rightarrow> bool \<Rightarrow> string list" where
  "split str delim include_empty =
     filter (\<lambda>item. item \<noteq> [] \<or> include_empty) (getlines str delim)"

text \<open>\<^verbatim>\<open>::tolower\<close> on a byte, in the C locale.\<close>

definition tolower :: "char \<Rightarrow> char" where
  "tolower c =
     (let k = (of_char c :: nat) in if 65 \<le> k \<and> k \<le> 90 then char_of (k + 32) else c)"

section \<open>The emitted parser\<close>

text \<open>
  The printer writes C++ text. The model keeps each statement the printer can write into
  a \<^verbatim>\<open>case\<close> of a handler as a constructor; \<open>T\<close> stands for the C++ type name, \<open>v\<close> for the
  verb (\<^verbatim>\<open>add\<close>, \<^verbatim>\<open>set\<close> or \<^verbatim>\<open>mutable\<close>) and \<open>f\<close> for the field name of the line:
  \<^item> \<open>SetLocation k\<close>: \<^verbatim>\<open>state.location = k;\<close>
  \<^item> \<open>PopBack\<close>: \<^verbatim>\<open>state.msgStack.pop_back();\<close>
  \<^item> \<open>AssertEmpty\<close>: \<^verbatim>\<open>assert(state.msgStack.empty());\<close>
  \<^item> \<open>PushReq\<close>: \<^verbatim>\<open>state.msgStack.push_back(&state.req);\<close>
  \<^item> \<open>PushSub T v f\<close>: \<^verbatim>\<open>state.msgStack.push_back(static_cast<T *>(state.msgStack.back())->v_f());\<close>
  \<^item> \<open>ClearField T f\<close>: \<^verbatim>\<open>static_cast<T *>(state.msgStack.back())->clear_f();\<close>
  \<^item> \<open>CallSetter T v f None\<close>: \<^verbatim>\<open>static_cast<T *>(state.msgStack.back())->v_f(v);\<close> and
    \<open>CallSetter T v f (Some E)\<close>: the same with the argument \<^verbatim>\<open>static_cast<E>(v)\<close>
  \<^item> \<open>StringTarget T v f\<close>: \<^verbatim>\<open>target = static_cast<T *>(state.msgStack.back())->v_f();\<close>
  \<^item> \<open>HashSwitch cs p\<close>: the inner \<^verbatim>\<open>switch (hash)\<close> of the key handler, with for each
    \<open>(h, key, k)\<close> of \<open>cs\<close> the case \<^verbatim>\<open>case hu: // key\<close> that sets \<^verbatim>\<open>state.location = k;\<close>, and
    the default that reports an invalid key under the path \<open>p\<close> and calls \<^verbatim>\<open>exit(1)\<close>.
  Every case of a handler ends with \<^verbatim>\<open>break;\<close>.
\<close>

datatype stmt =
    SetLocation int
  | PopBack
  | AssertEmpty
  | PushReq
  | PushSub string string string
  | ClearField string string
  | CallSetter string string string "string option"
  | StringTarget string string string
  | HashSwitch "(nat \<times> string \<times> int) list" string

text \<open>\<open>Case k c b\<close>: \<^verbatim>\<open>case k: // c\<close> followed by the statements \<open>b\<close> and \<^verbatim>\<open>break;\<close>.\<close>

datatype scase = Case (case_label: int) (case_comment: string) (case_body: "stmt list")

text \<open>\<^verbatim>\<open>Printer::get_full_cpp_type_name\<close>, on the full name of the descriptor.\<close>

definition get_full_cpp_type_name :: "string \<Rightarrow> error + string" where
  "get_full_cpp_type_name fn =
     (case replace_all fn ''.'' ''::'' of
        None \<Rightarrow> Inl endless_loop
      | Some r \<Rightarrow> Inr (''::'' @ r))"

text \<open>\<^verbatim>\<open>Printer::printNullStateImpl\<close>.\<close>

definition printNullStateImpl :: "Graph \<Rightarrow> nat \<Rightarrow> error + scase" where
  "printNullStateImpl g node =
     (let n = node_at g node in
      bindE (deref (desc n)) (\<lambda>d.
      bindE (get_full_cpp_type_name (desc_full_name d)) (\<lambda>cpp_type.
      bindE (deref (parent n)) (\<lambda>p.
      Inr (Case (state n) (full_name n)
             [ClearField cpp_type (name n), SetLocation (state (node_at g p))])))))"

text \<open>\<^verbatim>\<open>Printer::printPodStateImpl\<close>.\<close>

definition printPodStateImpl :: "Graph \<Rightarrow> nat \<Rightarrow> error + scase" where
  "printPodStateImpl g node =
     (let n = node_at g node in
      bindE (deref (desc n)) (\<lambda>d.
      bindE (get_full_cpp_type_name (desc_full_name d)) (\<lambda>cpp_type.
      bindE (deref (field n)) (\<lambda>f.
      bindE (if field_type f = TYPE_ENUM then
               bindE (deref (enum_type f)) (\<lambda>e.
               bindE (get_full_cpp_type_name e) (\<lambda>enum_type. Inr (Some enum_type)))
             else Inr None) (\<lambda>cast.
      bindE (if \<not> is_repeated f then
               bindE (deref (parent n)) (\<lambda>p. Inr [SetLocation (state (node_at g p))])
             else Inr []) (\<lambda>rest.
      Inr (Case (state n) (full_name n)
             (CallSetter cpp_type (if is_repeated f then ''add'' else ''set'') (name n) cast
                # rest))))))))"

text \<open>\<^verbatim>\<open>Printer::printStringStateImpl\<close>.\<close>

definition printStringStateImpl :: "Graph \<Rightarrow> nat \<Rightarrow> error + scase" where
  "printStringStateImpl g node =
     (let n = node_at g node in
      bindE (deref (desc n)) (\<lambda>d.
      bindE (get_full_cpp_type_name (desc_full_name d)) (\<lambda>cpp_type.
      bindE (deref (field n)) (\<lambda>f.
      bindE (if \<not> is_repeated f then
               bindE (deref (parent n)) (\<lambda>p. Inr [SetLocation (state (node_at g p))])
             else Inr []) (\<lambda>rest.
      Inr (Case (state n) (full_name n)
             (StringTarget cpp_type (if is_repeated f then ''add'' else ''mutable'') (name n)
                # rest)))))))"

text \<open>\<^verbatim>\<open>Printer::printMapStartStateImpl\<close>.\<close>

definition printMapStartStateImpl :: "Graph \<Rightarrow> nat \<Rightarrow> error + scase" where
  "printMapStartStateImpl g node =
     (let n = node_at g node in
      case parent n of
        None \<Rightarrow> Inr (Case 0 ''.'' [SetLocation (state n), AssertEmpty, PushReq])
      | Some p \<Rightarrow>
          bindE (deref (desc n)) (\<lambda>d.
          bindE (get_full_cpp_type_name (desc_full_name d)) (\<lambda>cpp_type.
          bindE (deref (field n)) (\<lambda>f.
          Inr (Case (state (node_at g p)) (full_name n)
                 [SetLocation (state n),
                  PushSub cpp_type (if is_repeated f then ''add'' else ''mutable'') (name n)])))))"

text \<open>
  \<^verbatim>\<open>Printer::printMapKeyStateImpl\<close>; \<open>hash\<close> is \<^verbatim>\<open>std::hash<std::string>\<close>, which the C++
  implementation fixes.
\<close>

definition printMapKeyStateImpl :: "(string \<Rightarrow> nat) \<Rightarrow> Graph \<Rightarrow> nat \<Rightarrow> error + scase" where
  "printMapKeyStateImpl hash g node =
     (let n = node_at g node in
      Inr (Case (state n) (full_name n)
             [HashSwitch
                (map (\<lambda>child. (hash (name (node_at g child)), name (node_at g child),
                                state (node_at g child)))
                   (children n))
                (full_name n)]))"

text \<open>\<^verbatim>\<open>Printer::printMapEndStateImpl\<close>.\<close>

definition printMapEndStateImpl :: "Graph \<Rightarrow> nat \<Rightarrow> error + scase" where
  "printMapEndStateImpl g node =
     (let n = node_at g node;
          top = Inr (Case (state n) ''.'' [SetLocation 0, PopBack, AssertEmpty])
      in case parent n of
           None \<Rightarrow> top
         | Some p \<Rightarrow>
             (case parent (node_at g p) of
                None \<Rightarrow> top
              | Some pp \<Rightarrow>
                  bindE (deref (desc n)) (\<lambda>d.
                  bindE (get_full_cpp_type_name (desc_full_name d)) (\<lambda>cpp_type.
                  Inr (Case (state n) (full_name n)
                         [if type (node_at g pp) = Some ARRAY
                          then SetLocation (state (node_at g p))
                          else SetLocation (state (node_at g pp)),
                          PopBack])))))"

text \<open>\<^verbatim>\<open>Printer::printArrayStartStateImpl\<close>.\<close>

definition printArrayStartStateImpl :: "Graph \<Rightarrow> nat \<Rightarrow> error + scase" where
  "printArrayStartStateImpl g node =
     (let n = node_at g node in
      if length (children n) \<noteq> 1 then Inl assertion_failed
      else Inr (Case (state n) (full_name n)
                  [SetLocation (state (node_at g (children n ! 0)))]))"

text \<open>\<^verbatim>\<open>Printer::printArrayEndStateImpl\<close>.\<close>

definition printArrayEndStateImpl :: "Graph \<Rightarrow> nat \<Rightarrow> error + scase" where
  "printArrayEndStateImpl g node =
     (let n = node_at g node in
      case parent n of
        None \<Rightarrow> Inl assertion_failed
      | Some p \<Rightarrow>
          if length (children n) \<noteq> 1 then Inl assertion_failed
          else Inr (Case (state (node_at g (children n ! 0))) (full_name n)
                      [SetLocation (state (node_at g p))]))"

text \<open>
  The handlers \<^verbatim>\<open>Printer::printSourceImpl\<close> prints, one list of cases for each: the
  \<^verbatim>\<open>switch (state.location)\<close> of \<^verbatim>\<open>printNullImpl\<close>, \<^verbatim>\<open>printPodImpl\<close> (for \<^verbatim>\<open>boolean\<close>,
  \<^verbatim>\<open>integer\<close> and \<^verbatim>\<open>double\<close>), \<^verbatim>\<open>printStringImpl\<close>, \<^verbatim>\<open>printMapStartImpl\<close>, \<^verbatim>\<open>printMapKeyImpl\<close>,
  \<^verbatim>\<open>printMapEndImpl\<close>, \<^verbatim>\<open>printArrayStartImpl\<close> and \<^verbatim>\<open>printArrayEndImpl\<close>. The text around the
  cases is the same for every graph; its meaning is given with the handlers below.
\<close>

record Handlers =
  parse_null :: "scase list"
  parse_boolean :: "scase list"
  parse_integer :: "scase list"
  parse_double :: "scase list"
  parse_string :: "scase list"
  parse_start_map :: "scase list"
  parse_map_key :: "scase list"
  parse_end_map :: "scase list"
  parse_start_array :: "scase list"
  parse_end_array :: "scase list"

definition printNullImpl :: "Graph \<Rightarrow> nat list \<Rightarrow> error + scase list" where
  "printNullImpl g ns = mapE (printNullStateImpl g) ns"

definition printPodImpl :: "Graph \<Rightarrow> nat list \<Rightarrow> error + scase list" where
  "printPodImpl g ns = mapE (printPodStateImpl g) ns"

definition printStringImpl :: "Graph \<Rightarrow> nat list \<Rightarrow> error + scase list" where
  "printStringImpl g ns = mapE (printStringStateImpl g) ns"

definition printMapStartImpl :: "Graph \<Rightarrow> nat list \<Rightarrow> error + scase list" where
  "printMapStartImpl g ns = mapE (printMapStartStateImpl g) ns"

definition printMapKeyImpl :: "(string \<Rightarrow> nat) \<Rightarrow> Graph \<Rightarrow> nat list \<Rightarrow> error + scase list" where
  "printMapKeyImpl hash g ns = mapE (printMapKeyStateImpl hash g) ns"

definition printMapEndImpl :: "Graph \<Rightarrow> nat list \<Rightarrow> error + scase list" where
  "printMapEndImpl g ns = mapE (printMapEndStateImpl g) ns"

definition printArrayStartImpl :: "Graph \<Rightarrow> nat list \<Rightarrow> error + scase list" where
  "printArrayStartImpl g ns = mapE (printArrayStartStateImpl g) ns"

definition printArrayEndImpl :: "Graph \<Rightarrow> nat list \<Rightarrow> error + scase list" where
  "printArrayEndImpl g ns = mapE (printArrayEndStateImpl g) ns"

text \<open>\<^verbatim>\<open>Printer::printSourceImpl\<close>.\<close>

definition printSourceImpl :: "(string \<Rightarrow> nat) \<Rightarrow> Graph \<Rightarrow> error + Handlers" where
  "printSourceImpl hash g =
     bindE (printNullImpl g (null_nodes g)) (\<lambda>h_null.
     bindE (printPodImpl g (bool_nodes g)) (\<lambda>h_boolean.
     bindE (printPodImpl g (long_nodes g)) (\<lambda>h_integer.
     bindE (printPodImpl g (double_nodes g)) (\<lambda>h_double.
     bindE (printStringImpl g (string_nodes g)) (\<lambda>h_string.
     bindE (printMapStartImpl g (object_nodes g)) (\<lambda>h_start_map.
     bindE (printMapKeyImpl hash g (object_nodes g)) (\<lambda>h_map_key.
     bindE (printMapEndImpl g (object_nodes g)) (\<lambda>h_end_map.
     bindE (printArrayStartImpl g (array_nodes g)) (\<lambda>h_start_array.
     bindE (printArrayEndImpl g (array_nodes g)) (\<lambda>h_end_array.
     Inr \<lparr>parse_null = h_null, parse_boolean = h_boolean, parse_integer = h_integer,
          parse_double = h_double, parse_string = h_string, parse_start_map = h_start_map,
          parse_map_key = h_map_key, parse_end_map = h_end_map,
          parse_start_array = h_start_array, parse_end_array = h_end_array\<rparr>))))))))))"

text \<open>
  What \<^verbatim>\<open>Printer::printHeader\<close> and \<^verbatim>\<open>Printer::printSource\<close> write besides fixed text: the
  include of the message header \<open>h\<close>, the namespaces of the package (\<^verbatim>\<open>printNamespaceBegin\<close>,
  \<^verbatim>\<open>printNamespaceEnd\<close>), the lower-case message name \<open>t\<close> and the C++ type \<open>c\<close> in the names
  of the API, and the handlers.
\<close>

record Header =
  header_include :: string
  header_namespaces :: "string list"
  header_t :: string
  header_c :: string

record Source =
  source_namespaces :: "string list"
  source_t :: string
  source_c :: string
  source_handlers :: Handlers

definition printHeader :: "Graph \<Rightarrow> string \<Rightarrow> string \<Rightarrow> string \<Rightarrow> Header" where
  "printHeader g t c h =
     \<lparr>header_include = h,
      header_namespaces = split (package (fileDesc g)) CHR ''.'' False,
      header_t = t,
      header_c = c\<rparr>"

definition printSource :: "(string \<Rightarrow> nat) \<Rightarrow> Graph \<Rightarrow> string \<Rightarrow> string \<Rightarrow> error + Source" where
  "printSource hash g t c =
     bindE (printSourceImpl hash g) (\<lambda>hs.
     Inr \<lparr>source_namespaces = split (package (fileDesc g)) CHR ''.'' False,
          source_t = t,
          source_c = c,
          source_handlers = hs\<rparr>)"

text \<open>
  \<^verbatim>\<open>Printer::print\<close>: the two files, each with its name. The source does not test what
  \<^verbatim>\<open>fopen\<close> returns; writing to the null stream of a failed \<^verbatim>\<open>fopen\<close> is undefined.
\<close>

definition Printer_print ::
  "World \<Rightarrow> (string \<Rightarrow> nat) \<Rightarrow> Graph \<Rightarrow> string \<Rightarrow>
     error + ((string \<times> Header) \<times> (string \<times> Source))" where
  "Printer_print w hash g proto_header =
     bindE (deref (desc (node_at g root))) (\<lambda>rd.
     let name_lower = map tolower (desc_name rd) in
     bindE (get_full_cpp_type_name (desc_full_name rd)) (\<lambda>cpp_type.
     let res_name_prefix = name_lower @ ''_parser.pb'';
         header_name = res_name_prefix @ ''.h''
     in if \<not> fopen_w w header_name then Inl null_dereference
        else
          let hd = printHeader g name_lower cpp_type proto_header;
              source_name = res_name_prefix @ ''.cpp''
          in if \<not> fopen_w w source_name then Inl null_dereference
             else bindE (printSource hash g name_lower cpp_type) (\<lambda>src.
                  Inr ((header_name, hd), (source_name, src)))))"

section \<open>The generator\<close>

text \<open>
  How the process ends: \<open>Exit k\<close> is \<^verbatim>\<open>exit(k)\<close> or \<^verbatim>\<open>return k\<close> from \<^verbatim>\<open>main\<close>; \<open>Abnormal e\<close>
  is an exception that leaves \<^verbatim>\<open>main\<close> (the source has no handler, so \<^verbatim>\<open>std::terminate\<close>
  aborts the process), or undefined behaviour.
\<close>

datatype outcome = Exit int | Abnormal error

text \<open>\<^verbatim>\<open>main\<close>; \<open>argv\<close> holds the program name and the arguments, so \<^verbatim>\<open>argc\<close> is its length.\<close>

definition main :: "nat \<Rightarrow> World \<Rightarrow> (string \<Rightarrow> nat) \<Rightarrow> string list \<Rightarrow> outcome" where
  "main fuel w hash argv =
     (if length argv \<noteq> 4 then Exit 1
      else
        let fname = argv ! 1; proto_header = argv ! 2; message_name = argv ! 3 in
        (case build fuel w fname message_name of
           Inl e \<Rightarrow> Abnormal e
         | Inr graph \<Rightarrow>
             (case Printer_print w hash graph proto_header of
                Inl e \<Rightarrow> Abnormal e
              | Inr files \<Rightarrow> Exit 0)))"

section \<open>The meaning of the emitted parser\<close>

text \<open>
  The emitted code runs against the message classes the schema compiler generates and
  against the JSON tokenizer; neither is part of the repository. The model names the
  message objects by the way they were reached (\<open>Req\<close> is \<^verbatim>\<open>state.req\<close>, \<open>Sub m v f\<close> the
  object \<^verbatim>\<open>m->v_f()\<close> returned) and records every call on a message in a log.
\<close>

datatype msg = Req | Sub msg string string

text \<open>The events of the tokenizer, with the value each callback receives (a double as its text).\<close>

datatype event =
    yajl_null
  | yajl_boolean int
  | yajl_integer int
  | yajl_double string
  | yajl_string string
  | yajl_start_map
  | yajl_map_key string
  | yajl_end_map
  | yajl_start_array
  | yajl_end_array

text \<open>
  The calls on messages: \<open>CheckInitialized m\<close>; \<open>Clear m T f\<close> for \<^verbatim>\<open>clear_f()\<close>;
  \<open>Setter m T v f E ev\<close> for \<^verbatim>\<open>v_f(\<dots>)\<close> with the value of the event \<open>ev\<close> (cast to \<open>E\<close>);
  \<open>StringSet m T v f ev\<close> for the bytes of \<open>ev\<close> copied into the string \<^verbatim>\<open>v_f()\<close> returns;
  \<open>ClearReq\<close> for \<^verbatim>\<open>req.Clear()\<close>.
\<close>

datatype call =
    CheckInitialized msg
  | Clear msg string string
  | Setter msg string string string "string option" event
  | StringSet msg string string string event
  | ClearReq

text \<open>
  \<^verbatim>\<open>struct <t>_parser_state_s\<close> of \<^verbatim>\<open>Printer::printTypeDefinition\<close>: the flag of its
  \<^verbatim>\<open>config\<close>, \<^verbatim>\<open>location\<close> and \<^verbatim>\<open>msgStack\<close> (its back is the last element), and the log.
\<close>

record parser_state =
  checkInitialized :: bool
  location :: int
  msgStack :: "msg list"
  calls :: "call list"

text \<open>
  How a handler can end the process: \<^verbatim>\<open>exit(1)\<close> after a message on \<^verbatim>\<open>stderr\<close>, a failed
  \<^verbatim>\<open>assert\<close>, undefined behaviour (\<^verbatim>\<open>back()\<close> or \<^verbatim>\<open>pop_back()\<close> on an empty vector), and
  the exception \<^verbatim>\<open>easy\<close> throws.
\<close>

datatype failure =
    exit_1 string
  | assert_failure
  | undefined_behaviour
  | thrown_runtime_error

fun exec_stmt :: "(string \<Rightarrow> nat) \<Rightarrow> event \<Rightarrow> stmt \<Rightarrow> parser_state \<Rightarrow> failure + parser_state" where
  "exec_stmt hash ev (SetLocation k) st = Inr (st\<lparr>location := k\<rparr>)"
| "exec_stmt hash ev PopBack st =
     (if msgStack st = [] then Inl undefined_behaviour
      else Inr (st\<lparr>msgStack := butlast (msgStack st)\<rparr>))"
| "exec_stmt hash ev AssertEmpty st =
     (if msgStack st = [] then Inr st else Inl assert_failure)"
| "exec_stmt hash ev PushReq st = Inr (st\<lparr>msgStack := msgStack st @ [Req]\<rparr>)"
| "exec_stmt hash ev (PushSub T v f) st =
     (if msgStack st = [] then Inl undefined_behaviour
      else Inr (st\<lparr>msgStack := msgStack st @ [Sub (last (msgStack st)) v f]\<rparr>))"
| "exec_stmt hash ev (ClearField T f) st =
     (if msgStack st = [] then Inl undefined_behaviour
      else Inr (st\<lparr>calls := calls st @ [Clear (last (msgStack st)) T f]\<rparr>))"
| "exec_stmt hash ev (CallSetter T v f E) st =
     (if msgStack st = [] then Inl undefined_behaviour
      else Inr (st\<lparr>calls := calls st @ [Setter (last (msgStack st)) T v f E ev]\<rparr>))"
| "exec_stmt hash ev (StringTarget T v f) st =
     (if msgStack st = [] then Inl undefined_behaviour
      else Inr (st\<lparr>calls := calls st @ [StringSet (last (msgStack st)) T v f ev]\<rparr>))"
| "exec_stmt hash ev (HashSwitch cs p) st =
     (let key = (case ev of yajl_map_key k \<Rightarrow> k | _ \<Rightarrow> []) in
      case find (\<lambda>(h, c, k). h = hash key) cs of
        None \<Rightarrow> Inl (exit_1 (''Invalid key '' @ p @ '' for '' @ key))
      | Some (h, c, k) \<Rightarrow> Inr (st\<lparr>location := k\<rparr>))"

fun exec_body ::
  "(string \<Rightarrow> nat) \<Rightarrow> event \<Rightarrow> stmt list \<Rightarrow> parser_state \<Rightarrow> failure + parser_state" where
  "exec_body hash ev [] st = Inr st"
| "exec_body hash ev (s # ss) st =
     (case exec_stmt hash ev s st of
        Inl f \<Rightarrow> Inl f
      | Inr st' \<Rightarrow> exec_body hash ev ss st')"

text \<open>
  \<^verbatim>\<open>switch (state.location)\<close> over the cases of a handler: the case whose label is the
  location runs (C++ admits no two cases with one label; the model takes the first), the
  default writes \<open>msg\<close> and calls \<^verbatim>\<open>exit(1)\<close>.
\<close>

definition switch_location ::
  "(string \<Rightarrow> nat) \<Rightarrow> event \<Rightarrow> scase list \<Rightarrow> string \<Rightarrow> parser_state \<Rightarrow> failure + parser_state" where
  "switch_location hash ev cs msg st =
     (case find (\<lambda>c. case_label c = location st) cs of
        None \<Rightarrow> Inl (exit_1 msg)
      | Some c \<Rightarrow> exec_body hash ev (case_body c) st)"

definition not_allowed :: "parser_state \<Rightarrow> string \<Rightarrow> string" where
  "not_allowed st what = ''State '' @ to_string (location st) @ '' does not allow '' @ what"

text \<open>
  The callbacks \<^verbatim>\<open><t>_parser_impl_parse_*\<close>, as the printer writes them around the cases.
  The one for \<^verbatim>\<open>end_map\<close> begins with the test of \<^verbatim>\<open>state.config.checkInitialized\<close> and the
  call \<^verbatim>\<open>state.msgStack.back()->CheckInitialized()\<close>.
\<close>

definition callback ::
  "(string \<Rightarrow> nat) \<Rightarrow> Handlers \<Rightarrow> event \<Rightarrow> parser_state \<Rightarrow> failure + parser_state" where
  "callback hash hs ev st =
     (case ev of
        yajl_null \<Rightarrow> switch_location hash ev (parse_null hs) (not_allowed st ''null'') st
      | yajl_boolean v \<Rightarrow>
          switch_location hash ev (parse_boolean hs) (not_allowed st ''boolean'') st
      | yajl_integer v \<Rightarrow>
          switch_location hash ev (parse_integer hs) (not_allowed st ''integer'') st
      | yajl_double v \<Rightarrow>
          switch_location hash ev (parse_double hs) (not_allowed st ''double'') st
      | yajl_string v \<Rightarrow>
          switch_location hash ev (parse_string hs) (not_allowed st ''string'') st
      | yajl_start_map \<Rightarrow>
          switch_location hash ev (parse_start_map hs) (not_allowed st ''object'') st
      | yajl_map_key key \<Rightarrow>
          switch_location hash ev (parse_map_key hs)
            (''Location '' @ to_string (location st) @ '' does not allow the key '' @ key) st
      | yajl_end_map \<Rightarrow>
          (if checkInitialized st then
             (if msgStack st = [] then Inl undefined_behaviour
              else switch_location hash ev (parse_end_map hs)
                     (not_allowed st ''closing object'')
                     (st\<lparr>calls := calls st @ [CheckInitialized (last (msgStack st))]\<rparr>))
           else switch_location hash ev (parse_end_map hs)
                  (not_allowed st ''closing object'') st)
      | yajl_start_array \<Rightarrow>
          switch_location hash ev (parse_start_array hs) (not_allowed st ''array'') st
      | yajl_end_array \<Rightarrow>
          switch_location hash ev (parse_end_array hs) (not_allowed st ''closing array'') st)"

text \<open>The tokenizer calls the callbacks for the events of its input, in order.\<close>

fun deliver ::
  "(string \<Rightarrow> nat) \<Rightarrow> Handlers \<Rightarrow> event list \<Rightarrow> parser_state \<Rightarrow> failure + parser_state" where
  "deliver hash hs [] st = Inr st"
| "deliver hash hs (ev # evs) st =
     (case callback hash hs ev st of
        Inl f \<Rightarrow> Inl f
      | Inr st' \<Rightarrow> deliver hash hs evs st')"

text \<open>
  The API of \<^verbatim>\<open>Printer::printApiImpl\<close>. \<^verbatim>\<open><t>_parser_init\<close> creates the state (with
  \<^verbatim>\<open>location = 0\<close> and an empty stack) and sets \<^verbatim>\<open>state->config.checkInitialized = true\<close>.
\<close>

definition parser_init :: parser_state where
  "parser_init = \<lparr>checkInitialized = True, location = 0, msgStack = [], calls = []\<rparr>"

text \<open>\<^verbatim>\<open>reset()\<close> of the state, which \<^verbatim>\<open><t>_parser_reset\<close> calls.\<close>

definition parser_reset :: "parser_state \<Rightarrow> parser_state" where
  "parser_reset st = st\<lparr>location := 0, calls := calls st @ [ClearReq], msgStack := []\<rparr>"

text \<open>
  The other operations on a state. \<open>on_chunk evs ok\<close> and \<open>complete evs ok\<close> stand for
  \<^verbatim>\<open><t>_parser_on_chunk\<close> and \<^verbatim>\<open><t>_parser_complete\<close> when the tokenizer finds the events \<open>evs\<close>
  in the input and ends with the status \<open>ok\<close>; \<open>get_error\<close> and \<open>free_error\<close> only ask the
  tokenizer. Each returns its result code and the state.
\<close>

datatype api = on_chunk "event list" bool | complete "event list" bool | reset | get_error | free_error

fun api_call ::
  "(string \<Rightarrow> nat) \<Rightarrow> Handlers \<Rightarrow> api \<Rightarrow> parser_state \<Rightarrow> failure + (int \<times> parser_state)" where
  "api_call hash hs (on_chunk evs ok) st =
     (case deliver hash hs evs st of
        Inl f \<Rightarrow> Inl f
      | Inr st' \<Rightarrow> Inr (if ok then 0 else 1, st'))"
| "api_call hash hs (complete evs ok) st =
     (case deliver hash hs evs st of
        Inl f \<Rightarrow> Inl f
      | Inr st' \<Rightarrow> Inr (if ok then 0 else 1, st'))"
| "api_call hash hs reset st = Inr (0, parser_reset st)"
| "api_call hash hs get_error st = Inr (0, st)"
| "api_call hash hs free_error st = Inr (0, st)"

fun api_calls ::
  "(string \<Rightarrow> nat) \<Rightarrow> Handlers \<Rightarrow> api list \<Rightarrow> parser_state \<Rightarrow> failure + parser_state" where
  "api_calls hash hs [] st = Inr st"
| "api_calls hash hs (c # cs) st =
     (case api_call hash hs c st of
        Inl f \<Rightarrow> Inl f
      | Inr (rc, st') \<Rightarrow> api_calls hash hs cs st')"

text \<open>
  \<^verbatim>\<open><t>_parser_easy\<close>: \<^verbatim>\<open>init\<close>, \<^verbatim>\<open>on_chunk\<close> with the whole text, \<^verbatim>\<open>complete\<close>, \<^verbatim>\<open>free\<close>; a result
  code other than 0 throws. The result is the state at the end, whose log is the message.
\<close>

definition parser_easy ::
  "(string \<Rightarrow> nat) \<Rightarrow> Handlers \<Rightarrow> event list \<Rightarrow> bool \<Rightarrow> event list \<Rightarrow> bool \<Rightarrow>
     failure + parser_state" where
  "parser_easy hash hs evs1 ok1 evs2 ok2 =
     (case api_call hash hs (on_chunk evs1 ok1) parser_init of
        Inl f \<Rightarrow> Inl f
      | Inr (rc, st) \<Rightarrow>
          if rc \<noteq> 0 then Inl thrown_runtime_error
          else
            (case api_call hash hs (complete evs2 ok2) st of
               Inl f \<Rightarrow> Inl f
             | Inr (rc', st') \<Rightarrow>
                 if rc' \<noteq> 0 then Inl thrown_runtime_error else Inr st'))"

section \<open>An example schema\<close>

text \<open>
  The schema the witnesses run on, in the notation of the schema language:
  \<^verbatim>\<open>package demo;\<close>
  \<^verbatim>\<open>message Point { optional int32 x = 1; optional int32 y = 2; }\<close>
  \<^verbatim>\<open>message Shape { required string name = 1; optional Point origin = 2; repeated Point ps = 3;\<close>
  \<^verbatim>\<open>                optional bool solid = 4; optional double area = 5; }\<close>
  \<^verbatim>\<open>message Blob { optional bytes data = 1; }\<close>
  in a file \<^verbatim>\<open>demo.proto\<close> that opens, parses and builds.
\<close>

definition scalar_field :: "string \<Rightarrow> FieldType \<Rightarrow> Label \<Rightarrow> FieldDescriptor" where
  "scalar_field nm t l =
     \<lparr>field_name = nm, field_type = t, label = l, message_type = None, enum_type = None\<rparr>"

definition message_field :: "string \<Rightarrow> Label \<Rightarrow> string \<Rightarrow> FieldDescriptor" where
  "message_field nm l m =
     \<lparr>field_name = nm, field_type = TYPE_MESSAGE, label = l, message_type = Some m,
      enum_type = None\<rparr>"

definition Point :: Descriptor where
  "Point = \<lparr>desc_name = ''Point'', desc_full_name = ''demo.Point'',
     desc_fields = [scalar_field ''x'' TYPE_INT32 LABEL_OPTIONAL,
                    scalar_field ''y'' TYPE_INT32 LABEL_OPTIONAL]\<rparr>"

definition Shape :: Descriptor where
  "Shape = \<lparr>desc_name = ''Shape'', desc_full_name = ''demo.Shape'',
     desc_fields = [scalar_field ''name'' TYPE_STRING LABEL_REQUIRED,
                    message_field ''origin'' LABEL_OPTIONAL ''demo.Point'',
                    message_field ''ps'' LABEL_REPEATED ''demo.Point'',
                    scalar_field ''solid'' TYPE_BOOL LABEL_OPTIONAL,
                    scalar_field ''area'' TYPE_DOUBLE LABEL_OPTIONAL]\<rparr>"

definition Blob :: Descriptor where
  "Blob = \<lparr>desc_name = ''Blob'', desc_full_name = ''demo.Blob'',
     desc_fields = [scalar_field ''data'' TYPE_BYTES LABEL_OPTIONAL]\<rparr>"

definition demo_pool :: DescriptorPool where
  "demo_pool n =
     (if n = ''demo.Point'' then Some Point
      else if n = ''demo.Shape'' then Some Shape
      else if n = ''demo.Blob'' then Some Blob
      else None)"

definition demo_world :: World where
  "demo_world =
     \<lparr>open_rdonly = (\<lambda>f. f = ''demo.proto''),
      Parse = (\<lambda>f. True),
      BuildFile = (\<lambda>f. Some (\<lparr>package = ''demo''\<rparr>, demo_pool)),
      fopen_w = (\<lambda>f. True)\<rparr>"

text \<open>
  A hash function for the examples: the length of the key, under which keys of the same
  length collide.
\<close>

definition demo_hash :: "string \<Rightarrow> nat" where
  "demo_hash s = length s"

text \<open>
  A state of the emitted parser for \<^verbatim>\<open>Shape\<close>, inside the first element of \<^verbatim>\<open>ps\<close>: the
  location is the state 9 of the node at address 8, and the stack holds the target message
  and the element.
\<close>

definition demo_state :: parser_state where
  "demo_state =
     \<lparr>checkInitialized = True, location = 9,
      msgStack = [Req, Sub Req ''add'' ''ps''], calls = []\<rparr>"

definition nullable :: "Node \<Rightarrow> bool" where
  "nullable nd = (case field nd of None \<Rightarrow> False | Some f \<Rightarrow> is_optional f)"

definition enlist :: "nat \<Rightarrow> Node \<Rightarrow> Graph \<Rightarrow> Graph" where
  "enlist a nd g =
     g\<lparr>all_nodes := all_nodes g @ [a],
       null_nodes := null_nodes g @ (if nullable nd then [a] else []),
       bool_nodes := bool_nodes g @ (if type nd = Some BOOL then [a] else []),
       long_nodes := long_nodes g @ (if type nd \<in> {Some BOOL, Some LONG, Some DOUBLE} then [a] else []),
       double_nodes := double_nodes g @ (if type nd = Some DOUBLE then [a] else []),
       string_nodes := string_nodes g @ (if type nd = Some STRING then [a] else []),
       object_nodes := object_nodes g @ (if type nd = Some INSIDE_OBJECT then [a] else []),
       key_nodes := key_nodes g @ (if type nd = Some OUTSIDE_OBJECT then [a] else []),
       array_nodes := array_nodes g @ (if type nd = Some ARRAY then [a] else [])\<rparr>"

definition alloc :: "nat \<Rightarrow> Node \<Rightarrow> Graph \<Rightarrow> Graph" where
  "alloc p nd g =
     enlist (length (nodes g)) nd
       (g\<lparr>stateCounter := stateCounter g + 1,
          nodes := (nodes g)[p := (nodes g ! p)\<lparr>children := children (nodes g ! p) @ [length (nodes g)]\<rparr>]
                   @ [nd\<lparr>parent := Some p, children := [], state := stateCounter g + 1\<rparr>]\<rparr>)"

definition mk_node ::
  "NodeType \<Rightarrow> string \<Rightarrow> string \<Rightarrow> string \<Rightarrow> Descriptor \<Rightarrow> FieldDescriptor \<Rightarrow> Node" where
  "mk_node T nm fnm tn d f =
     \<lparr>parent = None, children = [], type = Some T, state = 0, name = nm, full_name = fnm,
      type_name = tn, desc = Some d, field = Some f\<rparr>"

definition lists_ok :: "Graph \<Rightarrow> bool" where
  "lists_ok g =
     (all_nodes g = [0..<length (nodes g)] \<and>
      null_nodes g = filter (\<lambda>a. nullable (nodes g ! a)) [0..<length (nodes g)] \<and>
      bool_nodes g = filter (\<lambda>a. type (nodes g ! a) = Some BOOL) [0..<length (nodes g)] \<and>
      long_nodes g = filter (\<lambda>a. type (nodes g ! a) \<in> {Some BOOL, Some LONG, Some DOUBLE})
                       [0..<length (nodes g)] \<and>
      double_nodes g = filter (\<lambda>a. type (nodes g ! a) = Some DOUBLE) [0..<length (nodes g)] \<and>
      string_nodes g = filter (\<lambda>a. type (nodes g ! a) = Some STRING) [0..<length (nodes g)] \<and>
      object_nodes g = filter (\<lambda>a. type (nodes g ! a) = Some INSIDE_OBJECT) [0..<length (nodes g)] \<and>
      key_nodes g = filter (\<lambda>a. type (nodes g ! a) = Some OUTSIDE_OBJECT) [0..<length (nodes g)] \<and>
      array_nodes g = filter (\<lambda>a. type (nodes g ! a) = Some ARRAY) [0..<length (nodes g)])"

definition link :: "Node \<Rightarrow> Node \<Rightarrow> bool" where
  "link pn n =
     (\<exists>f ty. field n = Some f \<and> getNodeTypeForProtoType (field_type f) = Inr ty \<and>
        desc n \<noteq> None \<and> name n = field_name f \<and>
        type pn \<in> {Some INSIDE_OBJECT, Some OUTSIDE_OBJECT, Some ARRAY} \<and>
        (type pn = Some INSIDE_OBJECT \<longrightarrow>
           type n = Some (if is_repeated f then ARRAY else ty) \<and>
           full_name n = full_name pn @ field_name f) \<and>
        (type pn = Some OUTSIDE_OBJECT \<longrightarrow>
           type n = Some INSIDE_OBJECT \<and> field pn = Some f \<and>
           full_name n = full_name pn @ ''.'' \<and> desc n = desc pn \<and>
           type_name n = type_name pn) \<and>
        (type pn = Some ARRAY \<longrightarrow>
           type n = Some ty \<and> field pn = Some f \<and> is_repeated f \<and>
           full_name n = full_name pn @ ''[]'' \<and> desc n = desc pn))"

definition wf_node :: "Graph \<Rightarrow> nat \<Rightarrow> bool" where
  "wf_node g a =
     (state (nodes g ! a) = int a + 1 \<and>
      (\<forall>c \<in> set (children (nodes g ! a)).
         a < c \<and> c < length (nodes g) \<and> parent (nodes g ! c) = Some a) \<and>
      (type (nodes g ! a) \<in> {Some ARRAY, Some OUTSIDE_OBJECT} \<longrightarrow>
         children (nodes g ! a) = (if a + 1 < length (nodes g) then [a + 1] else [])) \<and>
      (type (nodes g ! a) \<in> {Some BOOL, Some LONG, Some DOUBLE, Some STRING} \<longrightarrow>
         children (nodes g ! a) = []) \<and>
      (parent (nodes g ! a) = None \<longrightarrow>
         a = 0 \<and> type (nodes g ! a) = Some INSIDE_OBJECT \<and> field (nodes g ! a) = None \<and>
         desc (nodes g ! a) \<noteq> None \<and> name (nodes g ! a) = ''.'' \<and>
         full_name (nodes g ! a) = ''.'') \<and>
      (\<forall>p. parent (nodes g ! a) = Some p \<longrightarrow>
         p < a \<and> a \<in> set (children (nodes g ! p)) \<and> link (nodes g ! p) (nodes g ! a)))"

definition closed :: "Graph \<Rightarrow> bool" where
  "closed g = (type (last (nodes g)) \<notin> {Some ARRAY, Some OUTSIDE_OBJECT})"

definition inv :: "Graph \<Rightarrow> bool" where
  "inv g =
     (nodes g \<noteq> [] \<and> stateCounter g = int (length (nodes g)) \<and> stateCounter g \<le> INT_MAX \<and>
      (\<forall>a < length (nodes g). wf_node g a) \<and> lists_ok g)"

definition alloc_pre :: "nat \<Rightarrow> Node \<Rightarrow> Graph \<Rightarrow> bool" where
  "alloc_pre p nd g =
     (p < length (nodes g) \<and> stateCounter g \<noteq> INT_MAX \<and> link (nodes g ! p) nd \<and>
      (if type (nodes g ! p) = Some INSIDE_OBJECT then closed g
       else p + 1 = length (nodes g)))"

text \<open>What a later step leaves of a graph: the nodes it had, but for their children.\<close>

definition same_node :: "Node \<Rightarrow> Node \<Rightarrow> bool" where
  "same_node n n' =
     (parent n' = parent n \<and> type n' = type n \<and> state n' = state n \<and> name n' = name n \<and>
      full_name n' = full_name n \<and> type_name n' = type_name n \<and> desc n' = desc n \<and>
      field n' = field n)"

definition frame :: "Graph \<Rightarrow> Graph \<Rightarrow> bool" where
  "frame g g' =
     (length (nodes g) \<le> length (nodes g') \<and> pool g' = pool g \<and> fileDesc g' = fileDesc g \<and>
      msgDesc g' = msgDesc g \<and>
      (\<forall>a < length (nodes g). same_node (nodes g ! a) (nodes g' ! a)))"

text \<open>
  The parts of one iteration of the loop of \<^verbatim>\<open>parseMessageDescRec\<close>, named for the proofs:
  the recursive call on the message type of the field (\<open>descend\<close>), the branch of a field
  that is not repeated, the branch of a repeated field, and the whole iteration.
\<close>

definition descend :: "nat \<Rightarrow> FieldDescriptor \<Rightarrow> nat \<Rightarrow> Graph \<Rightarrow> error + Graph" where
  "descend fuel fieldDesc objChild g =
     (case message_type fieldDesc of
        None \<Rightarrow> Inl null_dereference
      | Some m \<Rightarrow>
     (case pool g m of
        None \<Rightarrow> Inl null_dereference
      | Some sub \<Rightarrow>
     (case fuel of
        0 \<Rightarrow> Inl out_of_fuel
      | Suc k \<Rightarrow> parseMessageDescRec k sub (desc_fields sub) objChild g)))"

definition visit_single ::
  "nat \<Rightarrow> Descriptor \<Rightarrow> FieldDescriptor \<Rightarrow> NodeType \<Rightarrow> nat \<Rightarrow> Graph \<Rightarrow> error + Graph" where
  "visit_single fuel dsc fieldDesc ty child g2 =
     (case getTypeNameForFieldDesc (pool g2) fieldDesc of
        Inl e \<Rightarrow> Inl e
      | Inr tn \<Rightarrow>
     (case addNodeToTypeLists child
             (modify child (\<lambda>c. c\<lparr>type := Some ty, type_name := tn\<rparr>) g2) of
        Inl e \<Rightarrow> Inl e
      | Inr g3 \<Rightarrow>
          if ty = OUTSIDE_OBJECT then
            (case injectObjectNode dsc fieldDesc child g3 of
               Inl e \<Rightarrow> Inl e
             | Inr (objChild, g4) \<Rightarrow> descend fuel fieldDesc objChild g4)
          else Inr g3))"

definition visit_repeated ::
  "nat \<Rightarrow> Descriptor \<Rightarrow> FieldDescriptor \<Rightarrow> NodeType \<Rightarrow> nat \<Rightarrow> Graph \<Rightarrow> error + Graph" where
  "visit_repeated fuel dsc fieldDesc ty child g2 =
     (case getTypeNameForFieldDesc (pool g2) fieldDesc of
        Inl e \<Rightarrow> Inl e
      | Inr tn \<Rightarrow>
     (case addNodeToTypeLists child
             (modify child (\<lambda>c. c\<lparr>type := Some ARRAY,
                 type_name := ''['' @ tn @ '']''\<rparr>) g2) of
        Inl e \<Rightarrow> Inl e
      | Inr g3 \<Rightarrow>
          (case injectArrayNode dsc fieldDesc ty child g3 of
             Inl e \<Rightarrow> Inl e
           | Inr (arrChild, g4) \<Rightarrow>
               if ty = OUTSIDE_OBJECT then
                 (case injectObjectNode dsc fieldDesc arrChild g4 of
                    Inl e \<Rightarrow> Inl e
                  | Inr (objChild, g5) \<Rightarrow> descend fuel fieldDesc objChild g5)
               else Inr g4)))"

definition visit_field ::
  "nat \<Rightarrow> Descriptor \<Rightarrow> FieldDescriptor \<Rightarrow> nat \<Rightarrow> Graph \<Rightarrow> error + Graph" where
  "visit_field fuel dsc fieldDesc node g =
     (case getNodeTypeForProtoType (field_type fieldDesc) of
        Inl e \<Rightarrow> Inl e
      | Inr ty \<Rightarrow>
     (case addChild node g of
        Inl e \<Rightarrow> Inl e
      | Inr (child, g1) \<Rightarrow>
     (let g2 = modify child (\<lambda>c. c\<lparr>name := field_name fieldDesc,
                  full_name := full_name (node_at g1 node) @ field_name fieldDesc,
                  field := Some fieldDesc,
                  desc := Some dsc\<rparr>) g1
      in if \<not> is_repeated fieldDesc then visit_single fuel dsc fieldDesc ty child g2
         else visit_repeated fuel dsc fieldDesc ty child g2)))"

text \<open>The property of \<^verbatim>\<open>parseMessageDescRec\<close> the induction proves, for one amount of fuel.\<close>

definition parse_ok :: "nat \<Rightarrow> bool" where
  "parse_ok fuel =
     (\<forall>dsc fs node g g'.
        parseMessageDescRec fuel dsc fs node g = Inr g' \<longrightarrow> inv g \<longrightarrow> closed g \<longrightarrow>
        node < length (nodes g) \<longrightarrow> type (nodes g ! node) = Some INSIDE_OBJECT \<longrightarrow>
        inv g' \<and> closed g' \<and> frame g g')"

definition fresh :: "Graph \<Rightarrow> bool" where
  "fresh g =
     (stateCounter g = 1 \<and> nodes g = [new_Node\<lparr>state := 1\<rparr>] \<and> all_nodes g = [] \<and>
      null_nodes g = [] \<and> bool_nodes g = [] \<and> long_nodes g = [] \<and> double_nodes g = [] \<and>
      string_nodes g = [] \<and> object_nodes g = [] \<and> key_nodes g = [] \<and> array_nodes g = [])"

text \<open>
  The claim about the \<^verbatim>\<open>end_map\<close> handler, in the words of the specification: what the
  handler does when the parser is at the state of the \<open>INSIDE_OBJECT\<close> node \<open>n\<close>. If
  \<open>check_initialized\<close> is set, the initialization check is invoked on the top of the stack.
  If the node is the root or one level under the root, the location becomes 0 and the stack
  is popped and must then be empty; otherwise the stack is popped and the location becomes
  the state of the parent if the grandparent is an \<open>ARRAY\<close>, and the state of the grandparent
  if not. An empty stack has no top and cannot be popped.
\<close>

definition spec_end_map :: "Graph \<Rightarrow> nat \<Rightarrow> parser_state \<Rightarrow> failure + parser_state" where
  "spec_end_map g n st =
     (if msgStack st = [] then Inl undefined_behaviour
      else
        let checked = (if checkInitialized st
                       then st\<lparr>calls := calls st @ [CheckInitialized (last (msgStack st))]\<rparr>
                       else st);
            popped = butlast (msgStack st);
            leave = (if popped = [] then Inr (checked\<lparr>location := 0, msgStack := popped\<rparr>)
                     else Inl assert_failure)
        in case parent (node_at g n) of
             None \<Rightarrow> leave
           | Some p \<Rightarrow>
               (case parent (node_at g p) of
                  None \<Rightarrow> leave
                | Some gp \<Rightarrow>
                    Inr (checked\<lparr>location :=
                           (if type (node_at g gp) = Some ARRAY then state (node_at g p)
                            else state (node_at g gp)),
                         msgStack := popped\<rparr>)))"

text \<open>
  The number of calls of \<^verbatim>\<open>CheckInitialized()\<close> in a log, the number of \<^verbatim>\<open>end_map\<close> events
  in an input, and the events an operation of the API delivers.
\<close>

fun is_check :: "call \<Rightarrow> bool" where
  "is_check (CheckInitialized m) = True"
| "is_check (Clear m T f) = False"
| "is_check (Setter m T v f E ev) = False"
| "is_check (StringSet m T v f ev) = False"
| "is_check ClearReq = False"

definition checks :: "call list \<Rightarrow> nat" where
  "checks cs = length (filter is_check cs)"

definition end_maps :: "event list \<Rightarrow> nat" where
  "end_maps evs = length (filter (\<lambda>ev. ev = yajl_end_map) evs)"

fun api_events :: "api \<Rightarrow> event list" where
  "api_events (on_chunk evs ok) = evs"
| "api_events (complete evs ok) = evs"
| "api_events reset = []"
| "api_events get_error = []"
| "api_events free_error = []"

text \<open>A step that leaves the flag as it is and logs no call of \<^verbatim>\<open>CheckInitialized()\<close>.\<close>

definition quiet :: "parser_state \<Rightarrow> parser_state \<Rightarrow> bool" where
  "quiet st st' =
     (checkInitialized st' = checkInitialized st \<and>
      (\<exists>cs. calls st' = calls st @ cs \<and> checks cs = 0))"

lemma update_new:
  "length ys = k \<Longrightarrow> (ys @ [x])[k := y] = ys @ [y]"
  by (induction ys arbitrary: k) auto

lemma addNodeToTypeLists_enlist:
  assumes "addNodeToTypeLists a g = Inr g'"
  shows "g' = enlist a (nodes g ! a) g"
proof -
  define g1 where "g1 = g\<lparr>all_nodes := all_nodes g @ [a]\<rparr>"
  define g2 where "g2 = (case field (node_at g1 a) of
                    None \<Rightarrow> g1
                  | Some f \<Rightarrow> if is_optional f then g1\<lparr>null_nodes := null_nodes g1 @ [a]\<rparr> else g1)"
  have n1: "node_at g1 a = nodes g ! a"
    by (simp add: g1_def node_at_def)
  have g2: "g2 = g\<lparr>all_nodes := all_nodes g @ [a],
       null_nodes := null_nodes g @ (if nullable (nodes g ! a) then [a] else [])\<rparr>"
    unfolding g2_def n1 by (simp add: g1_def nullable_def split: option.splits)
  have n2: "node_at g2 a = nodes g ! a"
    by (simp add: g2 node_at_def)
  have "g' = (case type (node_at g2 a) of
                  None \<Rightarrow> g2
                | Some BOOL \<Rightarrow> g2\<lparr>bool_nodes := bool_nodes g2 @ [a], long_nodes := long_nodes g2 @ [a]\<rparr>
                | Some LONG \<Rightarrow> g2\<lparr>long_nodes := long_nodes g2 @ [a]\<rparr>
                | Some DOUBLE \<Rightarrow> g2\<lparr>double_nodes := double_nodes g2 @ [a], long_nodes := long_nodes g2 @ [a]\<rparr>
                | Some STRING \<Rightarrow> g2\<lparr>string_nodes := string_nodes g2 @ [a]\<rparr>
                | Some INSIDE_OBJECT \<Rightarrow> g2\<lparr>object_nodes := object_nodes g2 @ [a]\<rparr>
                | Some OUTSIDE_OBJECT \<Rightarrow> g2\<lparr>key_nodes := key_nodes g2 @ [a]\<rparr>
                | Some ARRAY \<Rightarrow> g2\<lparr>array_nodes := array_nodes g2 @ [a]\<rparr>)"
    using assms unfolding addNodeToTypeLists_def g2_def g1_def Let_def
    by (simp split: if_splits)
  then show ?thesis
    unfolding n2
    by (cases "type (nodes g ! a)") (simp_all add: g2 enlist_def split: NodeType.splits)
qed

lemma addNodeToTypeLists_Inl:
  "addNodeToTypeLists a g = Inl e \<Longrightarrow> state (nodes g ! a) = 0"
  by (auto simp: addNodeToTypeLists_def node_at_def Let_def split: if_splits)

lemma addChild_Inr:
  assumes "addChild node g = Inr (child, g1)" and "node < length (nodes g)"
  shows "child = length (nodes g)"
    and "g1 = g\<lparr>stateCounter := stateCounter g + 1,
          nodes := (nodes g)[node := (nodes g ! node)\<lparr>children := children (nodes g ! node) @ [length (nodes g)]\<rparr>]
                   @ [new_Node\<lparr>parent := Some node, state := stateCounter g + 1\<rparr>]\<rparr>"
    and "stateCounter g \<noteq> INT_MAX"
  using assms
  by (auto simp: addChild_def modify_def Let_def nth_append list_update_append split: if_splits)

lemma field_block:
  assumes "addChild node g = Inr (child, g1)" and "node < length (nodes g)"
    and "addNodeToTypeLists child
           (modify child (\<lambda>c. c\<lparr>type := Some T, type_name := tn\<rparr>)
              (modify child (\<lambda>c. c\<lparr>name := nm,
                   full_name := full_name (node_at g1 node) @ nm,
                   field := Some f, desc := Some d\<rparr>) g1)) = Inr g3"
  shows "child = length (nodes g)"
    and "g3 = alloc node (mk_node T nm (full_name (nodes g ! node) @ nm) tn d f) g"
    and "stateCounter g \<noteq> INT_MAX"
proof -
  note a = addChild_Inr [OF assms(1,2)]
  show "child = length (nodes g)" by (rule a(1))
  show "stateCounter g \<noteq> INT_MAX" by (rule a(3))
  show "g3 = alloc node (mk_node T nm (full_name (nodes g ! node) @ nm) tn d f) g"
    using addNodeToTypeLists_enlist [OF assms(3)] assms(2)
    unfolding a(1) a(2)
    by (simp add: alloc_def enlist_def mk_node_def modify_def node_at_def new_Node_def
        nth_append update_new nullable_def)
qed

lemma injectArrayNode_alloc:
  assumes "injectArrayNode d f T node g = Inr (arrChild, g2)" and "node < length (nodes g)"
  shows "arrChild = length (nodes g)"
    and "\<exists>tn. getTypeNameForFieldDesc (pool g) f = Inr tn \<and>
           g2 = alloc node (mk_node T (field_name f) (full_name (nodes g ! node) @ ''[]'') tn d f) g"
    and "stateCounter g \<noteq> INT_MAX"
proof -
  from assms(1) obtain g1 tn where
    ac: "addChild node g = Inr (arrChild, g1)" and
    tn: "getTypeNameForFieldDesc (pool g1) f = Inr tn" and
    an: "addNodeToTypeLists arrChild
           (modify arrChild (\<lambda>c. c\<lparr>name := field_name f,
               full_name := full_name (node_at g1 node) @ ''[]'',
               type := Some T, type_name := tn, field := Some f, desc := Some d\<rparr>) g1) = Inr g2"
    by (auto simp: injectArrayNode_def split: sum.splits prod.splits)
  note a = addChild_Inr [OF ac assms(2)]
  show "arrChild = length (nodes g)" by (rule a(1))
  show "stateCounter g \<noteq> INT_MAX" by (rule a(3))
  have "g2 = alloc node (mk_node T (field_name f) (full_name (nodes g ! node) @ ''[]'') tn d f) g"
    using addNodeToTypeLists_enlist [OF an] assms(2)
    unfolding a(1) a(2)
    by (simp add: alloc_def enlist_def mk_node_def modify_def node_at_def new_Node_def
        nth_append update_new nullable_def)
  moreover have "pool g1 = pool g" unfolding a(2) by simp
  ultimately show "\<exists>tn. getTypeNameForFieldDesc (pool g) f = Inr tn \<and>
           g2 = alloc node (mk_node T (field_name f) (full_name (nodes g ! node) @ ''[]'') tn d f) g"
    using tn by auto
qed

lemma injectObjectNode_alloc:
  assumes "injectObjectNode d f keyNode g = Inr (objNode, g2)" and "keyNode < length (nodes g)"
  shows "objNode = length (nodes g)"
    and "g2 = alloc keyNode (mk_node INSIDE_OBJECT (name (nodes g ! keyNode))
                (full_name (nodes g ! keyNode) @ ''.'') (type_name (nodes g ! keyNode)) d f) g"
    and "stateCounter g \<noteq> INT_MAX"
proof -
  from assms(1) obtain g1 where
    ac: "addChild keyNode g = Inr (objNode, g1)" and
    an: "addNodeToTypeLists objNode
           (modify objNode (\<lambda>c. c\<lparr>name := name (node_at g1 keyNode),
               full_name := full_name (node_at g1 keyNode) @ ''.'',
               type := Some INSIDE_OBJECT, type_name := type_name (node_at g1 keyNode),
               field := Some f, desc := Some d\<rparr>) g1) = Inr g2"
    by (auto simp: injectObjectNode_def split: sum.splits prod.splits)
  note a = addChild_Inr [OF ac assms(2)]
  show "objNode = length (nodes g)" by (rule a(1))
  show "stateCounter g \<noteq> INT_MAX" by (rule a(3))
  show "g2 = alloc keyNode (mk_node INSIDE_OBJECT (name (nodes g ! keyNode))
                (full_name (nodes g ! keyNode) @ ''.'') (type_name (nodes g ! keyNode)) d f) g"
    using addNodeToTypeLists_enlist [OF an] assms(2)
    unfolding a(1) a(2)
    by (simp add: alloc_def enlist_def mk_node_def modify_def node_at_def new_Node_def
        nth_append update_new nullable_def)
qed

lemma alloc_simps [simp]:
  "length (nodes (alloc p nd g)) = Suc (length (nodes g))"
  "stateCounter (alloc p nd g) = stateCounter g + 1"
  "pool (alloc p nd g) = pool g"
  "fileDesc (alloc p nd g) = fileDesc g"
  "msgDesc (alloc p nd g) = msgDesc g"
  "fname (alloc p nd g) = fname g"
  "msgName (alloc p nd g) = msgName g"
  "nodes (alloc p nd g) \<noteq> []"
  by (simp_all add: alloc_def enlist_def)

lemma alloc_new [simp]:
  "nodes (alloc p nd g) ! length (nodes g) =
     nd\<lparr>parent := Some p, children := [], state := stateCounter g + 1\<rparr>"
  by (simp add: alloc_def enlist_def nth_append)

lemma alloc_last [simp]:
  "last (nodes (alloc p nd g)) = nd\<lparr>parent := Some p, children := [], state := stateCounter g + 1\<rparr>"
  by (simp add: alloc_def enlist_def)

lemma alloc_old:
  "a < length (nodes g) \<Longrightarrow>
     nodes (alloc p nd g) ! a =
       (nodes g ! a)\<lparr>children := children (nodes g ! a) @ (if a = p then [length (nodes g)] else [])\<rparr>"
  by (simp add: alloc_def enlist_def nth_append nth_list_update)

lemma alloc_lists:
  "all_nodes (alloc p nd g) = all_nodes g @ [length (nodes g)]"
  "null_nodes (alloc p nd g) = null_nodes g @ (if nullable nd then [length (nodes g)] else [])"
  "bool_nodes (alloc p nd g) = bool_nodes g @ (if type nd = Some BOOL then [length (nodes g)] else [])"
  "long_nodes (alloc p nd g) =
     long_nodes g @ (if type nd \<in> {Some BOOL, Some LONG, Some DOUBLE} then [length (nodes g)] else [])"
  "double_nodes (alloc p nd g) = double_nodes g @ (if type nd = Some DOUBLE then [length (nodes g)] else [])"
  "string_nodes (alloc p nd g) = string_nodes g @ (if type nd = Some STRING then [length (nodes g)] else [])"
  "object_nodes (alloc p nd g) =
     object_nodes g @ (if type nd = Some INSIDE_OBJECT then [length (nodes g)] else [])"
  "key_nodes (alloc p nd g) = key_nodes g @ (if type nd = Some OUTSIDE_OBJECT then [length (nodes g)] else [])"
  "array_nodes (alloc p nd g) = array_nodes g @ (if type nd = Some ARRAY then [length (nodes g)] else [])"
  by (simp_all add: alloc_def enlist_def)

lemma filter_alloc:
  assumes old: "xs = filter (\<lambda>a. P (nodes g ! a)) [0..<length (nodes g)]"
    and ch: "\<And>n c. P (n\<lparr>children := c\<rparr>) = P n"
    and nw: "P (nd\<lparr>parent := Some p, children := [], state := stateCounter g + 1\<rparr>) = b"
  shows "xs @ (if b then [length (nodes g)] else []) =
           filter (\<lambda>a. P (nodes (alloc p nd g) ! a)) [0..<length (nodes (alloc p nd g))]"
proof -
  have "filter (\<lambda>a. P (nodes (alloc p nd g) ! a)) [0..<length (nodes g)] =
          filter (\<lambda>a. P (nodes g ! a)) [0..<length (nodes g)]"
    by (rule filter_cong) (simp_all add: alloc_old ch)
  then show ?thesis
    using nw by (simp add: old)
qed

lemma lists_ok_alloc:
  assumes "lists_ok g"
  shows "lists_ok (alloc p nd g)"
  unfolding lists_ok_def alloc_lists
proof (intro conjI)
  show "all_nodes g @ [length (nodes g)] = [0..<length (nodes (alloc p nd g))]"
    using assms by (simp add: lists_ok_def)
  show "null_nodes g @ (if nullable nd then [length (nodes g)] else []) =
          filter (\<lambda>a. nullable (nodes (alloc p nd g) ! a)) [0..<length (nodes (alloc p nd g))]"
    using assms by (intro filter_alloc) (simp_all add: lists_ok_def nullable_def)
  show "bool_nodes g @ (if type nd = Some BOOL then [length (nodes g)] else []) =
          filter (\<lambda>a. type (nodes (alloc p nd g) ! a) = Some BOOL) [0..<length (nodes (alloc p nd g))]"
    using assms by (intro filter_alloc) (simp_all add: lists_ok_def)
  show "long_nodes g @ (if type nd \<in> {Some BOOL, Some LONG, Some DOUBLE} then [length (nodes g)] else []) =
          filter (\<lambda>a. type (nodes (alloc p nd g) ! a) \<in> {Some BOOL, Some LONG, Some DOUBLE})
            [0..<length (nodes (alloc p nd g))]"
    using assms by (intro filter_alloc) (simp_all add: lists_ok_def)
  show "double_nodes g @ (if type nd = Some DOUBLE then [length (nodes g)] else []) =
          filter (\<lambda>a. type (nodes (alloc p nd g) ! a) = Some DOUBLE) [0..<length (nodes (alloc p nd g))]"
    using assms by (intro filter_alloc) (simp_all add: lists_ok_def)
  show "string_nodes g @ (if type nd = Some STRING then [length (nodes g)] else []) =
          filter (\<lambda>a. type (nodes (alloc p nd g) ! a) = Some STRING) [0..<length (nodes (alloc p nd g))]"
    using assms by (intro filter_alloc) (simp_all add: lists_ok_def)
  show "object_nodes g @ (if type nd = Some INSIDE_OBJECT then [length (nodes g)] else []) =
          filter (\<lambda>a. type (nodes (alloc p nd g) ! a) = Some INSIDE_OBJECT)
            [0..<length (nodes (alloc p nd g))]"
    using assms by (intro filter_alloc) (simp_all add: lists_ok_def)
  show "key_nodes g @ (if type nd = Some OUTSIDE_OBJECT then [length (nodes g)] else []) =
          filter (\<lambda>a. type (nodes (alloc p nd g) ! a) = Some OUTSIDE_OBJECT)
            [0..<length (nodes (alloc p nd g))]"
    using assms by (intro filter_alloc) (simp_all add: lists_ok_def)
  show "array_nodes g @ (if type nd = Some ARRAY then [length (nodes g)] else []) =
          filter (\<lambda>a. type (nodes (alloc p nd g) ! a) = Some ARRAY) [0..<length (nodes (alloc p nd g))]"
    using assms by (intro filter_alloc) (simp_all add: lists_ok_def)
qed

lemma link_children [simp]:
  "link (pn\<lparr>children := c\<rparr>) n = link pn n"
  "link pn (n\<lparr>children := c\<rparr>) = link pn n"
  "link pn (n\<lparr>parent := x, children := y, state := z\<rparr>) = link pn n"
  by (simp_all add: link_def)

lemma inv_wf: "inv g \<Longrightarrow> a < length (nodes g) \<Longrightarrow> wf_node g a"
  by (simp add: inv_def)

lemma wf_node_state: "wf_node g a \<Longrightarrow> state (nodes g ! a) = int a + 1"
  unfolding wf_node_def by blast

lemma wf_node_children:
  "wf_node g a \<Longrightarrow> c \<in> set (children (nodes g ! a)) \<Longrightarrow>
     a < c \<and> c < length (nodes g) \<and> parent (nodes g ! c) = Some a"
  unfolding wf_node_def by blast

lemma wf_node_single:
  "wf_node g a \<Longrightarrow> type (nodes g ! a) \<in> {Some ARRAY, Some OUTSIDE_OBJECT} \<Longrightarrow>
     children (nodes g ! a) = (if a + 1 < length (nodes g) then [a + 1] else [])"
  unfolding wf_node_def by blast

lemma wf_node_leaf:
  "wf_node g a \<Longrightarrow> type (nodes g ! a) \<in> {Some BOOL, Some LONG, Some DOUBLE, Some STRING} \<Longrightarrow>
     children (nodes g ! a) = []"
  unfolding wf_node_def by blast

lemma wf_node_root:
  "wf_node g a \<Longrightarrow> parent (nodes g ! a) = None \<Longrightarrow>
     a = 0 \<and> type (nodes g ! a) = Some INSIDE_OBJECT \<and> field (nodes g ! a) = None \<and>
     desc (nodes g ! a) \<noteq> None \<and> name (nodes g ! a) = ''.'' \<and> full_name (nodes g ! a) = ''.''"
  unfolding wf_node_def by blast

lemma wf_node_parent:
  "wf_node g a \<Longrightarrow> parent (nodes g ! a) = Some p \<Longrightarrow>
     p < a \<and> a \<in> set (children (nodes g ! p)) \<and> link (nodes g ! p) (nodes g ! a)"
  unfolding wf_node_def by blast

lemma link_scalar:
  "link pn n \<Longrightarrow> type pn \<in> {Some INSIDE_OBJECT, Some OUTSIDE_OBJECT, Some ARRAY}"
  by (auto simp: link_def)

lemma wf_alloc_new:
  assumes i: "inv g" and pre: "alloc_pre p nd g"
  shows "wf_node (alloc p nd g) (length (nodes g))"
proof -
  have p: "p < length (nodes g)" and l: "link (nodes g ! p) nd"
    using pre by (simp_all add: alloc_pre_def)
  have c: "stateCounter g = int (length (nodes g))"
    using i by (simp add: inv_def)
  show ?thesis
    unfolding wf_node_def
    using p l c by (simp add: alloc_old)
qed

lemma wf_alloc_parent:
  assumes i: "inv g" and pre: "alloc_pre p nd g"
  shows "wf_node (alloc p nd g) p"
proof -
  have p: "p < length (nodes g)" and l: "link (nodes g ! p) nd"
    using pre by (simp_all add: alloc_pre_def)
  have w: "wf_node g p" using i p by (rule inv_wf)
  have new: "nodes (alloc p nd g) ! p =
      (nodes g ! p)\<lparr>children := children (nodes g ! p) @ [length (nodes g)]\<rparr>"
    using p by (simp add: alloc_old)
  have st: "state (nodes g ! p) = int p + 1"
    using w by (rule wf_node_state)
  have ch: "\<forall>c \<in> set (children (nodes g ! p)).
         p < c \<and> c < length (nodes g) \<and> parent (nodes g ! c) = Some p"
    using wf_node_children [OF w] by blast
  have ty: "type (nodes g ! p) \<in> {Some INSIDE_OBJECT, Some OUTSIDE_OBJECT, Some ARRAY}"
    using l by (rule link_scalar)
  have pend: "children (nodes g ! p) = [] \<and> p + 1 = length (nodes g)"
    if t: "type (nodes g ! p) \<in> {Some ARRAY, Some OUTSIDE_OBJECT}"
  proof -
    from t have "type (nodes g ! p) \<noteq> Some INSIDE_OBJECT" by auto
    then have e: "p + 1 = length (nodes g)"
      using pre by (simp add: alloc_pre_def)
    have "children (nodes g ! p) = (if p + 1 < length (nodes g) then [p + 1] else [])"
      using w t by (rule wf_node_single)
    with e show ?thesis by simp
  qed
  have par0: "parent (nodes g ! p) = None \<longrightarrow>
         p = 0 \<and> type (nodes g ! p) = Some INSIDE_OBJECT \<and> field (nodes g ! p) = None \<and>
         desc (nodes g ! p) \<noteq> None \<and> name (nodes g ! p) = ''.'' \<and>
         full_name (nodes g ! p) = ''.''"
    using wf_node_root [OF w] by blast
  have par1: "\<forall>q. parent (nodes g ! p) = Some q \<longrightarrow>
         q < p \<and> p \<in> set (children (nodes g ! q)) \<and> link (nodes g ! q) (nodes g ! p)"
    using wf_node_parent [OF w] by blast
  show ?thesis
    unfolding wf_node_def new
  proof (intro conjI)
    show "state ((nodes g ! p)\<lparr>children := children (nodes g ! p) @ [length (nodes g)]\<rparr>) = int p + 1"
      using st by simp
    show "\<forall>c\<in>set (children ((nodes g ! p)\<lparr>children := children (nodes g ! p) @ [length (nodes g)]\<rparr>)).
       p < c \<and> c < length (nodes (alloc p nd g)) \<and> parent (nodes (alloc p nd g) ! c) = Some p"
    proof
      fix c assume "c \<in> set (children ((nodes g ! p)\<lparr>children := children (nodes g ! p) @ [length (nodes g)]\<rparr>))"
      then consider "c \<in> set (children (nodes g ! p))" | "c = length (nodes g)"
        by auto
      then show "p < c \<and> c < length (nodes (alloc p nd g)) \<and> parent (nodes (alloc p nd g) ! c) = Some p"
      proof cases
        case 1
        with ch have "p < c" "c < length (nodes g)" "parent (nodes g ! c) = Some p"
          by simp_all
        then show ?thesis by (simp add: alloc_old)
      next
        case 2
        then show ?thesis using p by simp
      qed
    qed
    show "type ((nodes g ! p)\<lparr>children := children (nodes g ! p) @ [length (nodes g)]\<rparr>)
        \<in> {Some ARRAY, Some OUTSIDE_OBJECT} \<longrightarrow>
      children ((nodes g ! p)\<lparr>children := children (nodes g ! p) @ [length (nodes g)]\<rparr>) =
      (if p + 1 < length (nodes (alloc p nd g)) then [p + 1] else [])"
    proof
      assume "type ((nodes g ! p)\<lparr>children := children (nodes g ! p) @ [length (nodes g)]\<rparr>)
        \<in> {Some ARRAY, Some OUTSIDE_OBJECT}"
      then have "type (nodes g ! p) \<in> {Some ARRAY, Some OUTSIDE_OBJECT}" by simp
      from pend [OF this]
      show "children ((nodes g ! p)\<lparr>children := children (nodes g ! p) @ [length (nodes g)]\<rparr>) =
        (if p + 1 < length (nodes (alloc p nd g)) then [p + 1] else [])"
        by simp
    qed
    show "type ((nodes g ! p)\<lparr>children := children (nodes g ! p) @ [length (nodes g)]\<rparr>)
        \<in> {Some BOOL, Some LONG, Some DOUBLE, Some STRING} \<longrightarrow>
      children ((nodes g ! p)\<lparr>children := children (nodes g ! p) @ [length (nodes g)]\<rparr>) = []"
      using ty by auto
    show "parent ((nodes g ! p)\<lparr>children := children (nodes g ! p) @ [length (nodes g)]\<rparr>) = None \<longrightarrow>
        p = 0 \<and> type ((nodes g ! p)\<lparr>children := children (nodes g ! p) @ [length (nodes g)]\<rparr>) = Some INSIDE_OBJECT \<and>
        field ((nodes g ! p)\<lparr>children := children (nodes g ! p) @ [length (nodes g)]\<rparr>) = None \<and>
        desc ((nodes g ! p)\<lparr>children := children (nodes g ! p) @ [length (nodes g)]\<rparr>) \<noteq> None \<and>
        name ((nodes g ! p)\<lparr>children := children (nodes g ! p) @ [length (nodes g)]\<rparr>) = ''.'' \<and>
        full_name ((nodes g ! p)\<lparr>children := children (nodes g ! p) @ [length (nodes g)]\<rparr>) = ''.''"
      using par0 by simp
    show "\<forall>q. parent ((nodes g ! p)\<lparr>children := children (nodes g ! p) @ [length (nodes g)]\<rparr>) = Some q \<longrightarrow>
          q < p \<and> p \<in> set (children (nodes (alloc p nd g) ! q)) \<and>
          link (nodes (alloc p nd g) ! q)
            ((nodes g ! p)\<lparr>children := children (nodes g ! p) @ [length (nodes g)]\<rparr>)"
    proof (intro allI impI)
      fix q assume "parent ((nodes g ! p)\<lparr>children := children (nodes g ! p) @ [length (nodes g)]\<rparr>) = Some q"
      then have q: "parent (nodes g ! p) = Some q"
        by simp
      with par1 have q1: "q < p" and q2: "p \<in> set (children (nodes g ! q))"
        and q3: "link (nodes g ! q) (nodes g ! p)"
        by simp_all
      from q1 p have "nodes (alloc p nd g) ! q = nodes g ! q"
        by (simp add: alloc_old)
      then show "q < p \<and> p \<in> set (children (nodes (alloc p nd g) ! q)) \<and>
          link (nodes (alloc p nd g) ! q)
            ((nodes g ! p)\<lparr>children := children (nodes g ! p) @ [length (nodes g)]\<rparr>)"
        using q1 q2 q3 by simp
    qed
  qed
qed

lemma wf_alloc_other:
  assumes i: "inv g" and pre: "alloc_pre p nd g" and a: "a < length (nodes g)" and ap: "a \<noteq> p"
  shows "wf_node (alloc p nd g) a"
proof -
  have p: "p < length (nodes g)"
    using pre by (simp add: alloc_pre_def)
  have w: "wf_node g a" using i a by (rule inv_wf)
  have ne: "nodes g \<noteq> []" using i by (simp add: inv_def)
  have same: "nodes (alloc p nd g) ! a = nodes g ! a"
    using a ap by (simp add: alloc_old)
  have ch: "\<forall>c \<in> set (children (nodes g ! a)).
         a < c \<and> c < length (nodes g) \<and> parent (nodes g ! c) = Some a"
    using wf_node_children [OF w] by blast
  have notpend: "type (nodes g ! a) \<in> {Some ARRAY, Some OUTSIDE_OBJECT} \<Longrightarrow> a + 1 < length (nodes g)"
  proof (rule ccontr)
    assume t: "type (nodes g ! a) \<in> {Some ARRAY, Some OUTSIDE_OBJECT}"
    assume "\<not> a + 1 < length (nodes g)"
    with a have al: "a = length (nodes g) - 1" by simp
    then have "last (nodes g) = nodes g ! a"
      using ne by (simp add: last_conv_nth)
    with t have nc: "\<not> closed g" by (auto simp: closed_def)
    show False
    proof (cases "type (nodes g ! p) = Some INSIDE_OBJECT")
      case True
      with pre nc show False by (simp add: alloc_pre_def)
    next
      case False
      with pre have "p + 1 = length (nodes g)" by (simp add: alloc_pre_def)
      with al ap show False by simp
    qed
  qed
  have one: "type (nodes g ! a) \<in> {Some ARRAY, Some OUTSIDE_OBJECT} \<longrightarrow>
      children (nodes g ! a) = [a + 1]"
  proof
    assume t: "type (nodes g ! a) \<in> {Some ARRAY, Some OUTSIDE_OBJECT}"
    from wf_node_single [OF w t] notpend [OF t]
    show "children (nodes g ! a) = [a + 1]" by simp
  qed
  have sc: "type (nodes g ! a) \<in> {Some BOOL, Some LONG, Some DOUBLE, Some STRING} \<longrightarrow>
      children (nodes g ! a) = []"
    using wf_node_leaf [OF w] by blast
  have par0: "parent (nodes g ! a) = None \<longrightarrow>
         a = 0 \<and> type (nodes g ! a) = Some INSIDE_OBJECT \<and> field (nodes g ! a) = None \<and>
         desc (nodes g ! a) \<noteq> None \<and> name (nodes g ! a) = ''.'' \<and>
         full_name (nodes g ! a) = ''.''"
    using wf_node_root [OF w] by blast
  have par1: "\<forall>q. parent (nodes g ! a) = Some q \<longrightarrow>
         q < a \<and> a \<in> set (children (nodes g ! q)) \<and> link (nodes g ! q) (nodes g ! a)"
    using wf_node_parent [OF w] by blast
  show ?thesis
    unfolding wf_node_def same
  proof (intro conjI)
    show "state (nodes g ! a) = int a + 1"
      using w by (rule wf_node_state)
    show "\<forall>c\<in>set (children (nodes g ! a)).
       a < c \<and> c < length (nodes (alloc p nd g)) \<and> parent (nodes (alloc p nd g) ! c) = Some a"
      using ch by (auto simp: alloc_old)
    show "type (nodes g ! a) \<in> {Some ARRAY, Some OUTSIDE_OBJECT} \<longrightarrow>
      children (nodes g ! a) = (if a + 1 < length (nodes (alloc p nd g)) then [a + 1] else [])"
      using one a by auto
    show "type (nodes g ! a) \<in> {Some BOOL, Some LONG, Some DOUBLE, Some STRING} \<longrightarrow>
      children (nodes g ! a) = []"
      by (rule sc)
    show "parent (nodes g ! a) = None \<longrightarrow>
        a = 0 \<and> type (nodes g ! a) = Some INSIDE_OBJECT \<and> field (nodes g ! a) = None \<and>
        desc (nodes g ! a) \<noteq> None \<and> name (nodes g ! a) = ''.'' \<and> full_name (nodes g ! a) = ''.''"
      by (rule par0)
    show "\<forall>q. parent (nodes g ! a) = Some q \<longrightarrow>
          q < a \<and> a \<in> set (children (nodes (alloc p nd g) ! q)) \<and>
          link (nodes (alloc p nd g) ! q) (nodes g ! a)"
    proof (intro allI impI)
      fix q assume q: "parent (nodes g ! a) = Some q"
      with par1 have q1: "q < a" and q2: "a \<in> set (children (nodes g ! q))"
        and q3: "link (nodes g ! q) (nodes g ! a)"
        by simp_all
      from q1 a have "q < length (nodes g)" by simp
      then show "q < a \<and> a \<in> set (children (nodes (alloc p nd g) ! q)) \<and>
          link (nodes (alloc p nd g) ! q) (nodes g ! a)"
        using q1 q2 q3 by (simp add: alloc_old)
    qed
  qed
qed

lemma inv_alloc:
  assumes i: "inv g" and pre: "alloc_pre p nd g"
  shows "inv (alloc p nd g)"
  unfolding inv_def
proof (intro conjI allI impI)
  show "nodes (alloc p nd g) \<noteq> []" by simp
  show "stateCounter (alloc p nd g) = int (length (nodes (alloc p nd g)))"
    using i by (simp add: inv_def)
  show "stateCounter (alloc p nd g) \<le> INT_MAX"
    using i pre by (simp add: inv_def alloc_pre_def)
  show "lists_ok (alloc p nd g)"
    using i by (simp add: inv_def lists_ok_alloc)
  fix a assume "a < length (nodes (alloc p nd g))"
  then consider "a = length (nodes g)" | "a = p" | "a < length (nodes g)" "a \<noteq> p"
    by fastforce
  then show "wf_node (alloc p nd g) a"
  proof cases
    case 1
    then show ?thesis using wf_alloc_new [OF i pre] by simp
  next
    case 2
    then show ?thesis using wf_alloc_parent [OF i pre] by simp
  next
    case 3
    then show ?thesis using wf_alloc_other [OF i pre] by simp
  qed
qed

lemma frame_refl [simp]: "frame g g"
  by (simp add: frame_def same_node_def)

lemma same_node_trans: "same_node n n1 \<Longrightarrow> same_node n1 n2 \<Longrightarrow> same_node n n2"
  by (simp add: same_node_def)

lemma frame_trans:
  assumes "frame g g1" and "frame g1 g2"
  shows "frame g g2"
  unfolding frame_def
proof (intro conjI allI impI)
  show "length (nodes g) \<le> length (nodes g2)"
    using assms by (simp add: frame_def)
  show "pool g2 = pool g" "fileDesc g2 = fileDesc g" "msgDesc g2 = msgDesc g"
    using assms by (simp_all add: frame_def)
  fix a assume a: "a < length (nodes g)"
  then have a1: "a < length (nodes g1)" using assms(1) by (simp add: frame_def)
  have "same_node (nodes g ! a) (nodes g1 ! a)"
    using assms(1) a by (simp add: frame_def)
  moreover have "same_node (nodes g1 ! a) (nodes g2 ! a)"
    using assms(2) a1 by (simp add: frame_def)
  ultimately show "same_node (nodes g ! a) (nodes g2 ! a)"
    by (rule same_node_trans)
qed

lemma frame_alloc: "frame g (alloc p nd g)"
  by (simp add: frame_def alloc_old same_node_def)

lemma frame_node:
  "frame g g' \<Longrightarrow> a < length (nodes g) \<Longrightarrow> same_node (nodes g ! a) (nodes g' ! a)"
  by (simp add: frame_def)

lemma frame_length: "frame g g' \<Longrightarrow> length (nodes g) \<le> length (nodes g')"
  by (simp add: frame_def)

lemma frame_pool: "frame g g' \<Longrightarrow> pool g' = pool g"
  by (simp add: frame_def)

lemma parse_Cons:
  "parseMessageDescRec fuel dsc (f # rest) node g =
     (case visit_field fuel dsc f node g of
        Inl e \<Rightarrow> Inl e
      | Inr gm \<Rightarrow> parseMessageDescRec fuel dsc rest node gm)"
proof (cases "getNodeTypeForProtoType (field_type f)")
  case (Inl e)
  then show ?thesis by (simp add: visit_field_def)
next
  case ty: (Inr ty)
  show ?thesis
  proof (cases "addChild node g")
    case (Inl e)
    with ty show ?thesis by (simp add: visit_field_def)
  next
    case (Inr cg)
    obtain child g1 where cg: "cg = (child, g1)" by (cases cg)
    show ?thesis
      unfolding parseMessageDescRec.simps(2) visit_field_def visit_single_def
        visit_repeated_def descend_def ty Inr cg Let_def
      by (simp only: sum.case prod.case)
  qed
qed

lemma getNodeType_range:
  "getNodeTypeForProtoType t = Inr ty \<Longrightarrow> ty \<in> {BOOL, LONG, DOUBLE, STRING, OUTSIDE_OBJECT}"
  by (cases t) auto

lemma sum_caseE:
  assumes "(case x of Inl e \<Rightarrow> Inl e | Inr y \<Rightarrow> F y) = Inr r"
  obtains y where "x = Inr y" and "F y = Inr r"
  using assms by (cases x) simp_all

lemma closed_alloc: "closed (alloc p nd g) = (type nd \<notin> {Some ARRAY, Some OUTSIDE_OBJECT})"
  by (simp add: closed_def)

lemma mk_node_simps [simp]:
  "type (mk_node T nm fnm tn d f) = Some T"
  "name (mk_node T nm fnm tn d f) = nm"
  "full_name (mk_node T nm fnm tn d f) = fnm"
  "type_name (mk_node T nm fnm tn d f) = tn"
  "desc (mk_node T nm fnm tn d f) = Some d"
  "field (mk_node T nm fnm tn d f) = Some f"
  by (simp_all add: mk_node_def)

text \<open>The three kinds of allocation meet the precondition.\<close>

lemma alloc_pre_field:
  assumes "closed g" and "node < length (nodes g)"
    and "type (nodes g ! node) = Some INSIDE_OBJECT"
    and "stateCounter g \<noteq> INT_MAX"
    and "getNodeTypeForProtoType (field_type f) = Inr ty"
    and "T = (if is_repeated f then ARRAY else ty)"
  shows "alloc_pre node (mk_node T (field_name f) (full_name (nodes g ! node) @ field_name f) tn d f) g"
  using assms by (simp add: alloc_pre_def link_def)

lemma alloc_pre_object:
  assumes "key + 1 = length (nodes g)"
    and "type (nodes g ! key) = Some OUTSIDE_OBJECT"
    and "field (nodes g ! key) = Some f"
    and "name (nodes g ! key) = field_name f"
    and "desc (nodes g ! key) = Some d"
    and "stateCounter g \<noteq> INT_MAX"
    and "getNodeTypeForProtoType (field_type f) = Inr ty"
  shows "alloc_pre key (mk_node INSIDE_OBJECT (name (nodes g ! key))
           (full_name (nodes g ! key) @ ''.'') (type_name (nodes g ! key)) d f) g"
  using assms by (simp add: alloc_pre_def link_def)

lemma alloc_pre_element:
  assumes "arr + 1 = length (nodes g)"
    and "type (nodes g ! arr) = Some ARRAY"
    and "field (nodes g ! arr) = Some f"
    and "name (nodes g ! arr) = field_name f"
    and "desc (nodes g ! arr) = Some d"
    and "is_repeated f"
    and "stateCounter g \<noteq> INT_MAX"
    and "getNodeTypeForProtoType (field_type f) = Inr ty"
  shows "alloc_pre arr (mk_node ty (field_name f) (full_name (nodes g ! arr) @ ''[]'') tn d f) g"
  using assms by (simp add: alloc_pre_def link_def)

lemma descend_ok:
  assumes IH: "\<And>k. k < fuel \<Longrightarrow> parse_ok k"
    and D: "descend fuel f obj g = Inr g'"
    and "inv g" and "closed g" and "obj < length (nodes g)"
    and "type (nodes g ! obj) = Some INSIDE_OBJECT"
  shows "inv g' \<and> closed g' \<and> frame g g'"
proof -
  from D obtain m where m: "message_type f = Some m"
    by (cases "message_type f") (simp_all add: descend_def)
  from D m obtain sub where sub: "pool g m = Some sub"
    by (cases "pool g m") (simp_all add: descend_def)
  from D m sub obtain k where k: "fuel = Suc k"
    by (cases fuel) (simp_all add: descend_def)
  from D m sub k have "parseMessageDescRec k sub (desc_fields sub) obj g = Inr g'"
    by (simp add: descend_def)
  moreover have "parse_ok k" using IH k by simp
  ultimately show ?thesis
    using assms(3-6) unfolding parse_ok_def by blast
qed

lemma sum_prod_caseE [consumes 1, case_names Inr]:
  assumes "(case x of Inl e \<Rightarrow> Inl e | Inr (a, b) \<Rightarrow> F a b) = Inr r"
  obtains a b where "x = Inr (a, b)" and "F a b = Inr r"
  using assms by (cases x) auto

lemma sum_case2E [consumes 1, case_names Inr]:
  assumes "(case x of Inl e \<Rightarrow> Inl e | Inr y \<Rightarrow> F y) = Inr r"
  obtains y where "x = Inr y" and "F y = Inr r"
  using assms by (cases x) simp_all

lemma modify_pool [simp]: "pool (modify a F g) = pool g"
  by (simp add: modify_def)

lemma addChild_pool: "addChild node g = Inr (child, g1) \<Longrightarrow> pool g1 = pool g"
  by (auto simp: addChild_def Let_def modify_def split: if_splits)

lemma visit_single_ok:
  assumes IH: "\<And>k. k < fuel \<Longrightarrow> parse_ok k"
    and AC: "addChild node g = Inr (child, g1)"
    and V: "visit_single fuel dsc f ty child
              (modify child (\<lambda>c. c\<lparr>name := field_name f,
                  full_name := full_name (node_at g1 node) @ field_name f,
                  field := Some f, desc := Some dsc\<rparr>) g1) = Inr gm"
    and T: "getNodeTypeForProtoType (field_type f) = Inr ty"
    and nr: "\<not> is_repeated f"
    and i: "inv g" and c: "closed g" and n: "node < length (nodes g)"
    and tn: "type (nodes g ! node) = Some INSIDE_OBJECT"
  shows "inv gm \<and> closed gm \<and> frame g gm"
  using V [unfolded visit_single_def]
proof (cases rule: sum_case2E)
  case (Inr tn)
  from Inr(2) show ?thesis
  proof (cases rule: sum_case2E)
    case g3: (Inr g3)
    note b = field_block [OF AC n g3(1)]
    let ?nd = "mk_node ty (field_name f) (full_name (nodes g ! node) @ field_name f) tn dsc f"
    have pre: "alloc_pre node ?nd g"
      using c n tn b(3) T nr by (intro alloc_pre_field) simp_all
    have i3: "inv g3" unfolding b(2) using i pre by (rule inv_alloc)
    have f3: "frame g g3" unfolding b(2) by (rule frame_alloc)
    show ?thesis
    proof (cases "ty = OUTSIDE_OBJECT")
      case False
      with g3(2) have gm: "gm = g3" by simp
      have "ty \<in> {BOOL, LONG, DOUBLE, STRING, OUTSIDE_OBJECT}"
        using T by (rule getNodeType_range)
      with False have "closed g3"
        unfolding b(2) by (auto simp: closed_alloc)
      with i3 f3 gm show ?thesis by simp
    next
      case True
      with g3(2) have "(case injectObjectNode dsc f child g3 of
               Inl e \<Rightarrow> Inl e
             | Inr (objChild, g4) \<Rightarrow> descend fuel f objChild g4) = Inr gm"
        by simp
      then show ?thesis
      proof (cases rule: sum_prod_caseE)
        case (Inr objChild g4)
        have len3: "length (nodes g3) = Suc (length (nodes g))"
          unfolding b(2) by simp
        have ch3: "child < length (nodes g3)"
          using b(1) len3 by simp
        note o = injectObjectNode_alloc [OF Inr(1) ch3]
        have key: "nodes g3 ! child = ?nd\<lparr>parent := Some node, children := [],
                     state := stateCounter g + 1\<rparr>"
          unfolding b(1) b(2) by simp
        have k0: "child + 1 = length (nodes g3)"
          using b(1) len3 by simp
        have k1: "type (nodes g3 ! child) = Some OUTSIDE_OBJECT"
          and k2: "field (nodes g3 ! child) = Some f"
          and k3: "name (nodes g3 ! child) = field_name f"
          and k4: "desc (nodes g3 ! child) = Some dsc"
          using True by (simp_all add: key)
        have pre4: "alloc_pre child (mk_node INSIDE_OBJECT (name (nodes g3 ! child))
           (full_name (nodes g3 ! child) @ ''.'') (type_name (nodes g3 ! child)) dsc f) g3"
          using k0 k1 k2 k3 k4 o(3) T by (rule alloc_pre_object)
        have i4: "inv g4" unfolding o(2) using i3 pre4 by (rule inv_alloc)
        have f4: "frame g3 g4" unfolding o(2) by (rule frame_alloc)
        have c4: "closed g4" unfolding o(2) by (simp add: closed_alloc)
        have ob: "objChild < length (nodes g4)"
          unfolding o(1) o(2) by simp
        have ot: "type (nodes g4 ! objChild) = Some INSIDE_OBJECT"
          unfolding o(1) o(2) by simp
        have "inv gm \<and> closed gm \<and> frame g4 gm"
          using IH Inr(2) i4 c4 ob ot by (rule descend_ok)
        with f3 f4 show ?thesis
          by (blast intro: frame_trans)
      qed
    qed
  qed
qed

lemma visit_repeated_ok:
  assumes IH: "\<And>k. k < fuel \<Longrightarrow> parse_ok k"
    and AC: "addChild node g = Inr (child, g1)"
    and V: "visit_repeated fuel dsc f ty child
              (modify child (\<lambda>c. c\<lparr>name := field_name f,
                  full_name := full_name (node_at g1 node) @ field_name f,
                  field := Some f, desc := Some dsc\<rparr>) g1) = Inr gm"
    and T: "getNodeTypeForProtoType (field_type f) = Inr ty"
    and r: "is_repeated f"
    and i: "inv g" and c: "closed g" and n: "node < length (nodes g)"
    and tn: "type (nodes g ! node) = Some INSIDE_OBJECT"
  shows "inv gm \<and> closed gm \<and> frame g gm"
  using V [unfolded visit_repeated_def]
proof (cases rule: sum_case2E)
  case (Inr tn)
  from Inr(2) show ?thesis
  proof (cases rule: sum_case2E)
    case g3: (Inr g3)
    note b = field_block [OF AC n g3(1)]
    let ?nd = "mk_node ARRAY (field_name f) (full_name (nodes g ! node) @ field_name f)
                 (''['' @ tn @ '']'') dsc f"
    have pre: "alloc_pre node ?nd g"
      using c n tn b(3) T r by (intro alloc_pre_field) simp_all
    have i3: "inv g3" unfolding b(2) using i pre by (rule inv_alloc)
    have f3: "frame g g3" unfolding b(2) by (rule frame_alloc)
    have len3: "length (nodes g3) = Suc (length (nodes g))"
      unfolding b(2) by simp
    have ch3: "child < length (nodes g3)"
      using b(1) len3 by simp
    have arr: "nodes g3 ! child = ?nd\<lparr>parent := Some node, children := [],
                 state := stateCounter g + 1\<rparr>"
      unfolding b(1) b(2) by simp
    from g3(2) show ?thesis
    proof (cases rule: sum_prod_caseE)
      case g4: (Inr arrChild g4)
      note e = injectArrayNode_alloc [OF g4(1) ch3]
      from e(2) obtain tn' where
        g4eq: "g4 = alloc child (mk_node ty (field_name f) (full_name (nodes g3 ! child) @ ''[]'')
                 tn' dsc f) g3"
        by blast
      let ?el = "mk_node ty (field_name f) (full_name (nodes g3 ! child) @ ''[]'') tn' dsc f"
      have a0: "child + 1 = length (nodes g3)"
        using b(1) len3 by simp
      have a1: "type (nodes g3 ! child) = Some ARRAY"
        and a2: "field (nodes g3 ! child) = Some f"
        and a3: "name (nodes g3 ! child) = field_name f"
        and a4: "desc (nodes g3 ! child) = Some dsc"
        by (simp_all add: arr)
      have pre4: "alloc_pre child ?el g3"
        using a0 a1 a2 a3 a4 r e(3) T by (rule alloc_pre_element)
      have i4: "inv g4" unfolding g4eq using i3 pre4 by (rule inv_alloc)
      have f4: "frame g3 g4" unfolding g4eq by (rule frame_alloc)
      have len4: "length (nodes g4) = Suc (length (nodes g3))"
        unfolding g4eq by simp
      have ch4: "arrChild < length (nodes g4)"
        using e(1) len4 by simp
      have el: "nodes g4 ! arrChild = ?el\<lparr>parent := Some child, children := [],
                 state := stateCounter g3 + 1\<rparr>"
        unfolding e(1) g4eq by simp
      show ?thesis
      proof (cases "ty = OUTSIDE_OBJECT")
        case False
        with g4(2) have gm: "gm = g4" by simp
        have "ty \<in> {BOOL, LONG, DOUBLE, STRING, OUTSIDE_OBJECT}"
          using T by (rule getNodeType_range)
        with False have "closed g4"
          unfolding g4eq by (auto simp: closed_alloc)
        with i4 f3 f4 gm show ?thesis
          by (blast intro: frame_trans)
      next
        case True
        with g4(2) have "(case injectObjectNode dsc f arrChild g4 of
                 Inl e \<Rightarrow> Inl e
               | Inr (objChild, g5) \<Rightarrow> descend fuel f objChild g5) = Inr gm"
          by simp
        then show ?thesis
        proof (cases rule: sum_prod_caseE)
          case (Inr objChild g5)
          note o = injectObjectNode_alloc [OF Inr(1) ch4]
          have k0: "arrChild + 1 = length (nodes g4)"
            using e(1) len4 by simp
          have k1: "type (nodes g4 ! arrChild) = Some OUTSIDE_OBJECT"
            and k2: "field (nodes g4 ! arrChild) = Some f"
            and k3: "name (nodes g4 ! arrChild) = field_name f"
            and k4: "desc (nodes g4 ! arrChild) = Some dsc"
            using True by (simp_all add: el)
          have pre5: "alloc_pre arrChild (mk_node INSIDE_OBJECT (name (nodes g4 ! arrChild))
             (full_name (nodes g4 ! arrChild) @ ''.'') (type_name (nodes g4 ! arrChild)) dsc f) g4"
            using k0 k1 k2 k3 k4 o(3) T by (rule alloc_pre_object)
          have i5: "inv g5" unfolding o(2) using i4 pre5 by (rule inv_alloc)
          have f5: "frame g4 g5" unfolding o(2) by (rule frame_alloc)
          have c5: "closed g5" unfolding o(2) by (simp add: closed_alloc)
          have ob: "objChild < length (nodes g5)"
            unfolding o(1) o(2) by simp
          have ot: "type (nodes g5 ! objChild) = Some INSIDE_OBJECT"
            unfolding o(1) o(2) by simp
          have "inv gm \<and> closed gm \<and> frame g5 gm"
            using IH Inr(2) i5 c5 ob ot by (rule descend_ok)
          with f3 f4 f5 show ?thesis
            by (blast intro: frame_trans)
        qed
      qed
    qed
  qed
qed

lemma visit_field_ok:
  assumes IH: "\<And>k. k < fuel \<Longrightarrow> parse_ok k"
    and V: "visit_field fuel dsc f node g = Inr gm"
    and i: "inv g" and c: "closed g" and n: "node < length (nodes g)"
    and tn: "type (nodes g ! node) = Some INSIDE_OBJECT"
  shows "inv gm \<and> closed gm \<and> frame g gm"
  using V [unfolded visit_field_def]
proof (cases rule: sum_case2E)
  case ty: (Inr ty)
  from ty(2) show ?thesis
  proof (cases rule: sum_prod_caseE)
    case (Inr child g1)
    show ?thesis
    proof (cases "is_repeated f")
      case False
      with Inr(2) have "visit_single fuel dsc f ty child
              (modify child (\<lambda>c. c\<lparr>name := field_name f,
                  full_name := full_name (node_at g1 node) @ field_name f,
                  field := Some f, desc := Some dsc\<rparr>) g1) = Inr gm"
        by (simp add: Let_def)
      with IH Inr(1) show ?thesis
        using ty(1) False i c n tn by (rule visit_single_ok)
    next
      case True
      with Inr(2) have "visit_repeated fuel dsc f ty child
              (modify child (\<lambda>c. c\<lparr>name := field_name f,
                  full_name := full_name (node_at g1 node) @ field_name f,
                  field := Some f, desc := Some dsc\<rparr>) g1) = Inr gm"
        by (simp add: Let_def)
      with IH Inr(1) show ?thesis
        using ty(1) True i c n tn by (rule visit_repeated_ok)
    qed
  qed
qed

lemma parse_ok_step:
  assumes IH: "\<And>k. k < fuel \<Longrightarrow> parse_ok k"
  shows "parse_ok fuel"
  unfolding parse_ok_def
proof (intro allI impI)
  fix dsc fs node g g'
  assume P: "parseMessageDescRec fuel dsc fs node g = Inr g'"
    and i: "inv g" and c: "closed g" and n: "node < length (nodes g)"
    and tn: "type (nodes g ! node) = Some INSIDE_OBJECT"
  from P i c n tn show "inv g' \<and> closed g' \<and> frame g g'"
  proof (induction fs arbitrary: g)
    case Nil
    then show ?case by simp
  next
    case (Cons f rest)
    from Cons.prems(1) have "(case visit_field fuel dsc f node g of
        Inl e \<Rightarrow> Inl e
      | Inr gm \<Rightarrow> parseMessageDescRec fuel dsc rest node gm) = Inr g'"
      by (simp only: parse_Cons)
    then show ?case
    proof (cases rule: sum_case2E)
      case (Inr gm)
      have m: "inv gm \<and> closed gm \<and> frame g gm"
        using IH Inr(1) Cons.prems(2-5) by (rule visit_field_ok)
      then have fr: "frame g gm" by simp
      have n': "node < length (nodes gm)"
        using frame_length [OF fr] Cons.prems(4) by simp
      have "same_node (nodes g ! node) (nodes gm ! node)"
        using fr Cons.prems(4) by (rule frame_node)
      then have t': "type (nodes gm ! node) = Some INSIDE_OBJECT"
        using Cons.prems(5) by (simp add: same_node_def)
      have "inv g' \<and> closed g' \<and> frame gm g'"
        using Inr(2) m n' t' by (intro Cons.IH) simp_all
      with fr show ?thesis
        by (blast intro: frame_trans)
    qed
  qed
qed

lemma parse_ok_all: "parse_ok fuel"
  by (induction fuel rule: less_induct) (rule parse_ok_step)

lemma parse_inv:
  assumes "parseMessageDescRec fuel dsc fs node g = Inr g'"
    and "inv g" and "closed g" and "node < length (nodes g)"
    and "type (nodes g ! node) = Some INSIDE_OBJECT"
  shows "inv g'" and "closed g'" and "frame g g'"
  using parse_ok_all [of fuel] assms unfolding parse_ok_def by blast+

lemma Graph_init_fresh: "Graph_init w fn mn = Inr g \<Longrightarrow> fresh g"
  by (auto simp: Graph_init_def fresh_def split: if_splits option.splits)

lemma INT_MAX_pos: "1 \<le> INT_MAX"
  by (simp add: INT_MAX_def)

lemma root_setup:
  assumes fr: "fresh g"
    and A: "addNodeToTypeLists root
              (modify root (\<lambda>r. r\<lparr>parent := None, name := ''.'', full_name := ''.'',
                 type_name := tn, type := Some INSIDE_OBJECT, desc := Some d,
                 field := None\<rparr>) g) = Inr g2"
  shows "inv g2" and "closed g2" and "nodes g2 ! 0 = \<lparr>parent = None, children = [],
      type = Some INSIDE_OBJECT, state = 1, name = ''.'', full_name = ''.'', type_name = tn,
      desc = Some d, field = None\<rparr>"
    and "length (nodes g2) = 1" and "pool g2 = pool g" and "msgDesc g2 = msgDesc g"
    and "fileDesc g2 = fileDesc g"
proof -
  let ?r = "\<lparr>parent = None, children = [], type = Some INSIDE_OBJECT, state = 1, name = ''.'',
      full_name = ''.'', type_name = tn, desc = Some d, field = None\<rparr>"
  let ?g1 = "modify root (\<lambda>r. r\<lparr>parent := None, name := ''.'', full_name := ''.'',
                 type_name := tn, type := Some INSIDE_OBJECT, desc := Some d,
                 field := None\<rparr>) g"
  have n1: "nodes ?g1 = [?r]"
    using fr by (simp add: fresh_def modify_def root_def new_Node_def)
  have g2: "g2 = enlist root (nodes ?g1 ! root) ?g1"
    using A by (rule addNodeToTypeLists_enlist)
  have n2: "nodes g2 = [?r]"
    unfolding g2 using n1 by (simp add: enlist_def)
  show r0: "nodes g2 ! 0 = ?r" and len: "length (nodes g2) = 1"
    using n2 by simp_all
  show "pool g2 = pool g" "msgDesc g2 = msgDesc g" "fileDesc g2 = fileDesc g"
    unfolding g2 by (simp_all add: enlist_def modify_def)
  have sc: "stateCounter g2 = 1"
    unfolding g2 using fr by (simp add: enlist_def modify_def fresh_def)
  have l: "lists_ok g2"
    unfolding lists_ok_def n2
    unfolding g2 using fr n1
    by (simp add: enlist_def modify_def fresh_def root_def nullable_def)
  have w: "wf_node g2 0"
    unfolding wf_node_def n2 by simp
  show "inv g2"
    unfolding inv_def using l w sc INT_MAX_pos n2 by simp
  show "closed g2"
    unfolding closed_def n2 by simp
qed

lemma build_parts:
  assumes "build fuel w fn mn = Inr g"
  obtains g0 g2 where "Graph_init w fn mn = Inr g0"
    and "addNodeToTypeLists root
              (modify root (\<lambda>r. r\<lparr>parent := None, name := ''.'', full_name := ''.'',
                 type_name := desc_name (msgDesc g0), type := Some INSIDE_OBJECT,
                 desc := Some (msgDesc g0), field := None\<rparr>) g0) = Inr g2"
    and "parseMessageDescRec fuel (msgDesc g0) (desc_fields (msgDesc g0)) root g2 = Inr g"
proof -
  from assms obtain g0 where g0: "Graph_init w fn mn = Inr g0"
    and p: "parseMessageDesc fuel g0 = Inr g"
    by (cases "Graph_init w fn mn") (simp_all add: build_def)
  from p have "(case addNodeToTypeLists root
              (modify root (\<lambda>r. r\<lparr>parent := None, name := ''.'', full_name := ''.'',
                 type_name := desc_name (msgDesc g0), type := Some INSIDE_OBJECT,
                 desc := Some (msgDesc g0), field := None\<rparr>) g0) of
            Inl e \<Rightarrow> Inl e
          | Inr g2 \<Rightarrow> parseMessageDescRec fuel (msgDesc g0) (desc_fields (msgDesc g0)) root g2) = Inr g"
    by (simp add: parseMessageDesc_def Let_def)
  then show ?thesis
  proof (cases rule: sum_case2E)
    case (Inr g2)
    with g0 show ?thesis by (rule that)
  qed
qed

lemma build_inv:
  assumes "build fuel w fn mn = Inr g"
  shows "inv g" and "closed g"
proof -
  from assms obtain g0 g2 where g0: "Graph_init w fn mn = Inr g0"
    and a: "addNodeToTypeLists root
              (modify root (\<lambda>r. r\<lparr>parent := None, name := ''.'', full_name := ''.'',
                 type_name := desc_name (msgDesc g0), type := Some INSIDE_OBJECT,
                 desc := Some (msgDesc g0), field := None\<rparr>) g0) = Inr g2"
    and p: "parseMessageDescRec fuel (msgDesc g0) (desc_fields (msgDesc g0)) root g2 = Inr g"
    by (rule build_parts)
  note r = root_setup [OF Graph_init_fresh [OF g0] a]
  have n: "root < length (nodes g2)" using r(4) by (simp add: root_def)
  have t: "type (nodes g2 ! root) = Some INSIDE_OBJECT"
    using r(3) by (simp add: root_def)
  show "inv g" using p r(1) r(2) n t by (rule parse_inv(1))
  show "closed g" using p r(1) r(2) n t by (rule parse_inv(2))
qed

lemma inv_state: "inv g \<Longrightarrow> a < length (nodes g) \<Longrightarrow> state (nodes g ! a) = int a + 1"
  by (rule wf_node_state) (rule inv_wf)

lemma inv_states: "inv g \<Longrightarrow> map state (nodes g) = map (\<lambda>a. int a + 1) [0..<length (nodes g)]"
  by (rule nth_equalityI) (simp_all add: inv_state)

lemma inv_single:
  assumes i: "inv g" and c: "closed g" and a: "a < length (nodes g)"
    and t: "type (nodes g ! a) \<in> {Some ARRAY, Some OUTSIDE_OBJECT}"
  shows "a + 1 < length (nodes g)" and "children (nodes g ! a) = [a + 1]"
    and "parent (nodes g ! (a + 1)) = Some a"
    and "link (nodes g ! a) (nodes g ! (a + 1))"
proof -
  have ne: "nodes g \<noteq> []" using i by (simp add: inv_def)
  show l: "a + 1 < length (nodes g)"
  proof (rule ccontr)
    assume "\<not> a + 1 < length (nodes g)"
    with a have "a = length (nodes g) - 1" by simp
    then have "last (nodes g) = nodes g ! a"
      using ne by (simp add: last_conv_nth)
    with t c show False by (auto simp: closed_def)
  qed
  have w: "wf_node g a" using i a by (rule inv_wf)
  show ch: "children (nodes g ! a) = [a + 1]"
    using wf_node_single [OF w t] l by simp
  then have "a + 1 \<in> set (children (nodes g ! a))" by simp
  from wf_node_children [OF w this]
  show p: "parent (nodes g ! (a + 1)) = Some a" by simp
  have "wf_node g (a + 1)" using i l by (rule inv_wf)
  from wf_node_parent [OF this p]
  show "link (nodes g ! a) (nodes g ! (a + 1))" by simp
qed

lemma bindE_E [consumes 1, case_names bind]:
  assumes "bindE m f = Inr r"
  obtains x where "m = Inr x" and "f x = Inr r"
  using assms by (cases m) (simp_all add: bindE_def)

lemma deref_E [consumes 1, case_names deref]:
  assumes "deref p = Inr x"
  obtains "p = Some x"
  using assms by (cases p) (simp_all add: deref_def)

lemma mapE_Cons_E [consumes 1, case_names Cons]:
  assumes "mapE f (x # xs) = Inr cs"
  obtains y ys where "f x = Inr y" and "mapE f xs = Inr ys" and "cs = y # ys"
proof -
  from assms have "bindE (f x) (\<lambda>y. bindE (mapE f xs) (\<lambda>ys. Inr (y # ys))) = Inr cs"
    by simp
  then show ?thesis
  proof (cases rule: bindE_E)
    case y: (bind y)
    from y(2) show ?thesis
    proof (cases rule: bindE_E)
      case (bind ys)
      with y(1) show ?thesis by (intro that [of y ys]) simp_all
    qed
  qed
qed

text \<open>
  The case a handler runs at the label of \<open>n\<close> is the case printed for \<open>n\<close>, when no two
  nodes of the list have the same label.
\<close>

lemma mapE_find:
  assumes "mapE f ns = Inr cs" and "n \<in> set ns"
    and "\<And>m c. m \<in> set ns \<Longrightarrow> f m = Inr c \<Longrightarrow> case_label c = L m"
    and "inj_on L (set ns)"
  shows "\<exists>c. f n = Inr c \<and> find (\<lambda>c. case_label c = L n) cs = Some c"
  using assms
proof (induction ns arbitrary: cs)
  case Nil
  then show ?case by simp
next
  case (Cons x xs)
  from Cons.prems(1) show ?case
  proof (cases rule: mapE_Cons_E)
    case (Cons y ys)
    have ly: "case_label y = L x"
      using Cons.prems(3) [of x y] Cons(1) by simp
    show ?thesis
    proof (cases "n = x")
      case True
      with Cons ly show ?thesis by simp
    next
      case False
      with Cons.prems(2) have n: "n \<in> set xs" by simp
      from Cons.prems(4) False n have "L x \<noteq> L n"
        by (auto simp: inj_on_def)
      with ly have sk: "case_label y \<noteq> L n" by simp
      have "\<exists>c. f n = Inr c \<and> find (\<lambda>c. case_label c = L n) ys = Some c"
      proof (rule Cons.IH [OF Cons(2) n])
        fix m c assume "m \<in> set xs" and "f m = Inr c"
        then show "case_label c = L m" using Cons.prems(3) [of m c] by simp
      next
        show "inj_on L (set xs)"
          using Cons.prems(4) by (simp add: inj_on_def)
      qed
      with sk Cons(3) show ?thesis by simp
    qed
  qed
qed

lemma printSourceImpl_parts:
  assumes "printSourceImpl hash g = Inr hs"
  shows "printNullImpl g (null_nodes g) = Inr (parse_null hs)"
    and "printPodImpl g (bool_nodes g) = Inr (parse_boolean hs)"
    and "printPodImpl g (long_nodes g) = Inr (parse_integer hs)"
    and "printPodImpl g (double_nodes g) = Inr (parse_double hs)"
    and "printStringImpl g (string_nodes g) = Inr (parse_string hs)"
    and "printMapStartImpl g (object_nodes g) = Inr (parse_start_map hs)"
    and "printMapKeyImpl hash g (object_nodes g) = Inr (parse_map_key hs)"
    and "printMapEndImpl g (object_nodes g) = Inr (parse_end_map hs)"
    and "printArrayStartImpl g (array_nodes g) = Inr (parse_start_array hs)"
    and "printArrayEndImpl g (array_nodes g) = Inr (parse_end_array hs)"
proof -
  from assms [unfolded printSourceImpl_def] have
    "printNullImpl g (null_nodes g) = Inr (parse_null hs) \<and>
     printPodImpl g (bool_nodes g) = Inr (parse_boolean hs) \<and>
     printPodImpl g (long_nodes g) = Inr (parse_integer hs) \<and>
     printPodImpl g (double_nodes g) = Inr (parse_double hs) \<and>
     printStringImpl g (string_nodes g) = Inr (parse_string hs) \<and>
     printMapStartImpl g (object_nodes g) = Inr (parse_start_map hs) \<and>
     printMapKeyImpl hash g (object_nodes g) = Inr (parse_map_key hs) \<and>
     printMapEndImpl g (object_nodes g) = Inr (parse_end_map hs) \<and>
     printArrayStartImpl g (array_nodes g) = Inr (parse_start_array hs) \<and>
     printArrayEndImpl g (array_nodes g) = Inr (parse_end_array hs)"
  proof (cases rule: bindE_E)
    case a1: (bind h1)
    from a1(2) show ?thesis
    proof (cases rule: bindE_E)
      case a2: (bind h2)
      from a2(2) show ?thesis
      proof (cases rule: bindE_E)
        case a3: (bind h3)
        from a3(2) show ?thesis
        proof (cases rule: bindE_E)
          case a4: (bind h4)
          from a4(2) show ?thesis
          proof (cases rule: bindE_E)
            case a5: (bind h5)
            from a5(2) show ?thesis
            proof (cases rule: bindE_E)
              case a6: (bind h6)
              from a6(2) show ?thesis
              proof (cases rule: bindE_E)
                case a7: (bind h7)
                from a7(2) show ?thesis
                proof (cases rule: bindE_E)
                  case a8: (bind h8)
                  from a8(2) show ?thesis
                  proof (cases rule: bindE_E)
                    case a9: (bind h9)
                    from a9(2) show ?thesis
                    proof (cases rule: bindE_E)
                      case (bind h10)
                      from bind(2) have "hs = \<lparr>parse_null = h1, parse_boolean = h2,
                        parse_integer = h3, parse_double = h4, parse_string = h5,
                        parse_start_map = h6, parse_map_key = h7, parse_end_map = h8,
                        parse_start_array = h9, parse_end_array = h10\<rparr>"
                        by simp
                      with a1(1) a2(1) a3(1) a4(1) a5(1) a6(1) a7(1) a8(1) a9(1) bind(1)
                      show ?thesis by simp
                    qed
                  qed
                qed
              qed
            qed
          qed
        qed
      qed
    qed
  qed
  then show "printNullImpl g (null_nodes g) = Inr (parse_null hs)"
    and "printPodImpl g (bool_nodes g) = Inr (parse_boolean hs)"
    and "printPodImpl g (long_nodes g) = Inr (parse_integer hs)"
    and "printPodImpl g (double_nodes g) = Inr (parse_double hs)"
    and "printStringImpl g (string_nodes g) = Inr (parse_string hs)"
    and "printMapStartImpl g (object_nodes g) = Inr (parse_start_map hs)"
    and "printMapKeyImpl hash g (object_nodes g) = Inr (parse_map_key hs)"
    and "printMapEndImpl g (object_nodes g) = Inr (parse_end_map hs)"
    and "printArrayStartImpl g (array_nodes g) = Inr (parse_start_array hs)"
    and "printArrayEndImpl g (array_nodes g) = Inr (parse_end_array hs)"
    by simp_all
qed

text \<open>The states of a graph that satisfies the invariant tell its nodes apart.\<close>

lemma inv_state_inj:
  assumes "inv g" and "set ns \<subseteq> {..<length (nodes g)}"
  shows "inj_on (\<lambda>a. state (node_at g a)) (set ns)"
proof (rule inj_onI)
  fix a b assume a: "a \<in> set ns" and b: "b \<in> set ns"
    and e: "state (node_at g a) = state (node_at g b)"
  from a b assms(2) have "a < length (nodes g)" "b < length (nodes g)" by auto
  with e inv_state [OF assms(1)] show "a = b" by (simp add: node_at_def)
qed

lemma lists_ok_bounds:
  assumes "lists_ok g"
  shows "set (null_nodes g) \<subseteq> {..<length (nodes g)}"
    and "set (long_nodes g) \<subseteq> {..<length (nodes g)}"
    and "set (object_nodes g) \<subseteq> {..<length (nodes g)}"
  using assms by (auto simp: lists_ok_def)

lemma quiet_refl: "quiet st st"
  by (simp add: quiet_def checks_def)

lemma quiet_trans:
  assumes "quiet a b" and "quiet b c"
  shows "quiet a c"
proof -
  from assms(1) obtain xs where x: "checkInitialized b = checkInitialized a"
    "calls b = calls a @ xs" "checks xs = 0"
    unfolding quiet_def by blast
  from assms(2) obtain ys where y: "checkInitialized c = checkInitialized b"
    "calls c = calls b @ ys" "checks ys = 0"
    unfolding quiet_def by blast
  from x y have "calls c = calls a @ (xs @ ys)" and "checks (xs @ ys) = 0"
    by (simp_all add: checks_def)
  with x(1) y(1) show ?thesis unfolding quiet_def by metis
qed

lemma exec_stmt_quiet:
  assumes "exec_stmt hash ev s st = Inr st'"
  shows "quiet st st'"
proof (cases s)
  case (SetLocation k)
  with assms show ?thesis by (auto simp: quiet_def checks_def)
next
  case PopBack
  with assms show ?thesis by (auto simp: quiet_def checks_def split: if_splits)
next
  case AssertEmpty
  with assms show ?thesis by (auto simp: quiet_def checks_def split: if_splits)
next
  case PushReq
  with assms show ?thesis by (auto simp: quiet_def checks_def)
next
  case (PushSub T v f)
  with assms show ?thesis by (auto simp: quiet_def checks_def split: if_splits)
next
  case (ClearField T f)
  with assms show ?thesis by (auto simp: quiet_def checks_def split: if_splits)
next
  case (CallSetter T v f E)
  with assms show ?thesis by (auto simp: quiet_def checks_def split: if_splits)
next
  case (StringTarget T v f)
  with assms show ?thesis by (auto simp: quiet_def checks_def split: if_splits)
next
  case (HashSwitch cs p)
  with assms show ?thesis
    by (auto simp: quiet_def checks_def Let_def split: option.splits prod.splits)
qed

lemma exec_body_quiet:
  "exec_body hash ev ss st = Inr st' \<Longrightarrow> quiet st st'"
proof (induction ss arbitrary: st)
  case Nil
  then show ?case by (simp add: quiet_refl)
next
  case (Cons s ss)
  from Cons.prems obtain st1 where a: "exec_stmt hash ev s st = Inr st1"
    and b: "exec_body hash ev ss st1 = Inr st'"
    by (cases "exec_stmt hash ev s st") simp_all
  from exec_stmt_quiet [OF a] Cons.IH [OF b] show ?case by (rule quiet_trans)
qed

lemma switch_location_quiet:
  assumes "switch_location hash ev cs msg st = Inr st'"
  shows "quiet st st'"
proof (cases "find (\<lambda>c. case_label c = location st) cs")
  case None
  with assms show ?thesis by (simp add: switch_location_def)
next
  case (Some c)
  with assms have "exec_body hash ev (case_body c) st = Inr st'"
    by (simp add: switch_location_def)
  then show ?thesis by (rule exec_body_quiet)
qed

lemma callback_quiet:
  assumes "callback hash hs ev st = Inr st'" and "ev \<noteq> yajl_end_map"
  shows "quiet st st'"
  using assms by (cases ev) (auto simp: callback_def intro: switch_location_quiet)

lemma callback_end_map:
  assumes "callback hash hs yajl_end_map st = Inr st'" and "checkInitialized st"
  shows "msgStack st \<noteq> []" and "checkInitialized st'"
    and "\<exists>cs. calls st' = calls st @ CheckInitialized (last (msgStack st)) # cs \<and> checks cs = 0"
proof -
  from assms show ne: "msgStack st \<noteq> []"
    by (auto simp: callback_def split: if_splits)
  with assms have "switch_location hash yajl_end_map (parse_end_map hs)
      (not_allowed st ''closing object'')
      (st\<lparr>calls := calls st @ [CheckInitialized (last (msgStack st))]\<rparr>) = Inr st'"
    by (simp add: callback_def)
  then have "quiet (st\<lparr>calls := calls st @ [CheckInitialized (last (msgStack st))]\<rparr>) st'"
    by (rule switch_location_quiet)
  then obtain cs where f: "checkInitialized st' = checkInitialized st"
    and c: "calls st' = (calls st @ [CheckInitialized (last (msgStack st))]) @ cs"
    and k: "checks cs = 0"
    unfolding quiet_def by auto
  from f assms(2) show "checkInitialized st'" by simp
  from c k show "\<exists>cs. calls st' = calls st @ CheckInitialized (last (msgStack st)) # cs \<and>
      checks cs = 0"
    by simp
qed

lemma callback_count:
  assumes "callback hash hs ev st = Inr st'" and "checkInitialized st"
  shows "checkInitialized st' \<and> checks (calls st') = checks (calls st) + end_maps [ev]"
proof (cases "ev = yajl_end_map")
  case True
  from callback_end_map(2,3) [OF assms(1) [unfolded True] assms(2)] True
  show ?thesis by (auto simp: checks_def end_maps_def)
next
  case False
  from callback_quiet [OF assms(1) False] assms(2) False
  show ?thesis by (auto simp: quiet_def checks_def end_maps_def)
qed

lemma deliver_count:
  "deliver hash hs evs st = Inr st' \<Longrightarrow> checkInitialized st \<Longrightarrow>
     checkInitialized st' \<and> checks (calls st') = checks (calls st) + end_maps evs"
proof (induction evs arbitrary: st)
  case Nil
  then show ?case by (simp add: end_maps_def)
next
  case (Cons ev evs)
  from Cons.prems(1) obtain st1 where a: "callback hash hs ev st = Inr st1"
    and b: "deliver hash hs evs st1 = Inr st'"
    by (cases "callback hash hs ev st") simp_all
  from callback_count [OF a Cons.prems(2)]
  have f: "checkInitialized st1"
    and c: "checks (calls st1) = checks (calls st) + end_maps [ev]" by simp_all
  from Cons.IH [OF b f] c show ?case by (simp add: end_maps_def)
qed

lemma deliver_flag:
  "deliver hash hs evs st = Inr st' \<Longrightarrow> checkInitialized st' = checkInitialized st"
proof (induction evs arbitrary: st)
  case Nil
  then show ?case by simp
next
  case (Cons ev evs)
  from Cons.prems(1) obtain st1 where a: "callback hash hs ev st = Inr st1"
    and b: "deliver hash hs evs st1 = Inr st'"
    by (cases "callback hash hs ev st") simp_all
  have "checkInitialized st1 = checkInitialized st"
  proof (cases "ev = yajl_end_map")
    case False
    from callback_quiet [OF a False] show ?thesis by (simp add: quiet_def)
  next
    case True
    show ?thesis
    proof (cases "checkInitialized st")
      case True
      from callback_end_map(2) [OF a [unfolded \<open>ev = yajl_end_map\<close>] True] True
      show ?thesis by simp
    next
      case False
      with a \<open>ev = yajl_end_map\<close> have "switch_location hash yajl_end_map (parse_end_map hs)
          (not_allowed st ''closing object'') st = Inr st1"
        by (simp add: callback_def)
      from switch_location_quiet [OF this] show ?thesis by (simp add: quiet_def)
    qed
  qed
  with Cons.IH [OF b] show ?case by simp
qed

lemma api_call_flag:
  assumes "api_call hash hs c st = Inr (rc, st')"
  shows "checkInitialized st' = checkInitialized st"
proof (cases c)
  case (on_chunk evs ok)
  with assms obtain s where "deliver hash hs evs st = Inr s" and "st' = s"
    by (cases "deliver hash hs evs st") auto
  then show ?thesis using deliver_flag by blast
next
  case (complete evs ok)
  with assms obtain s where "deliver hash hs evs st = Inr s" and "st' = s"
    by (cases "deliver hash hs evs st") auto
  then show ?thesis using deliver_flag by blast
next
  case reset
  with assms show ?thesis by (auto simp: parser_reset_def)
next
  case get_error
  with assms show ?thesis by auto
next
  case free_error
  with assms show ?thesis by auto
qed

lemma api_call_count:
  assumes "api_call hash hs c st = Inr (rc, st')" and "checkInitialized st"
  shows "checkInitialized st' \<and> checks (calls st') = checks (calls st) + end_maps (api_events c)"
proof (cases c)
  case (on_chunk evs ok)
  with assms(1) obtain s where "deliver hash hs evs st = Inr s" and "st' = s"
    by (cases "deliver hash hs evs st") auto
  with deliver_count [OF _ assms(2)] on_chunk show ?thesis by simp
next
  case (complete evs ok)
  with assms(1) obtain s where "deliver hash hs evs st = Inr s" and "st' = s"
    by (cases "deliver hash hs evs st") auto
  with deliver_count [OF _ assms(2)] complete show ?thesis by simp
next
  case reset
  with assms show ?thesis by (auto simp: parser_reset_def checks_def end_maps_def)
next
  case get_error
  with assms show ?thesis by (auto simp: end_maps_def)
next
  case free_error
  with assms show ?thesis by (auto simp: end_maps_def)
qed

lemma end_maps_append: "end_maps (xs @ ys) = end_maps xs + end_maps ys"
  by (simp add: end_maps_def)

lemma api_calls_count:
  "api_calls hash hs cs st = Inr st' \<Longrightarrow> checkInitialized st \<Longrightarrow>
     checkInitialized st' \<and>
     checks (calls st') = checks (calls st) + end_maps (concat (map api_events cs))"
proof (induction cs arbitrary: st)
  case Nil
  then show ?case by (simp add: end_maps_def)
next
  case (Cons c cs)
  from Cons.prems(1) obtain rc st1 where a: "api_call hash hs c st = Inr (rc, st1)"
    and b: "api_calls hash hs cs st1 = Inr st'"
    by (cases "api_call hash hs c st") auto
  from api_call_count [OF a Cons.prems(2)]
  have f: "checkInitialized st1"
    and c: "checks (calls st1) = checks (calls st) + end_maps (api_events c)" by simp_all
  from Cons.IH [OF b f] c show ?case by (simp add: end_maps_append)
qed

lemma parser_easy_count:
  assumes "parser_easy hash hs evs1 ok1 evs2 ok2 = Inr st"
  shows "checkInitialized st \<and> checks (calls st) = end_maps (evs1 @ evs2)"
proof -
  from assms obtain rc s1 where a: "api_call hash hs (on_chunk evs1 ok1) parser_init = Inr (rc, s1)"
    by (cases "api_call hash hs (on_chunk evs1 ok1) parser_init") (auto simp: parser_easy_def)
  with assms have r: "rc = 0"
    by (auto simp: parser_easy_def split: if_splits)
  from assms a r obtain rc' s2 where b: "api_call hash hs (complete evs2 ok2) s1 = Inr (rc', s2)"
    by (cases "api_call hash hs (complete evs2 ok2) s1") (auto simp: parser_easy_def)
  with assms a r have e: "s2 = st"
    by (auto simp: parser_easy_def split: if_splits)
  have i: "checkInitialized parser_init" and z: "checks (calls parser_init) = 0"
    by (simp_all add: parser_init_def checks_def)
  from api_call_count [OF a i] z have f: "checkInitialized s1"
    and c: "checks (calls s1) = end_maps evs1" by simp_all
  from api_call_count [OF b f] c e show ?thesis by (simp add: end_maps_append)
qed

section \<open>State numbers\<close>

text \<open>
  Claim C6. In every graph the builder produces, the root has state 1, no two nodes have
  the same state, and the states of the nodes are exactly the numbers from 1 to the number
  of nodes; every node is listed in \<open>all_nodes\<close>, in the order of allocation.
\<close>

theorem states_dense:
  assumes "build fuel w fn mn = Inr g"
  shows "state (node_at g root) = 1 \<and>
         distinct (map state (nodes g)) \<and>
         set (map state (nodes g)) = {1 .. int (length (nodes g))} \<and>
         all_nodes g = [0 ..< length (nodes g)]"
proof -
  have i: "inv g" using assms by (rule build_inv)
  have ne: "0 < length (nodes g)" using i by (simp add: inv_def)
  have m: "map state (nodes g) = map (\<lambda>a. int a + 1) [0..<length (nodes g)]"
    using i by (rule inv_states)
  have r: "state (node_at g root) = 1"
    using inv_state [OF i ne] by (simp add: node_at_def root_def)
  have d: "distinct (map state (nodes g))"
    unfolding m by (simp add: distinct_map inj_on_def)
  have "(\<lambda>a. int a + 1) ` {0..<length (nodes g)} = {1 .. int (length (nodes g))}"
  proof (rule set_eqI)
    fix k :: int
    show "k \<in> (\<lambda>a. int a + 1) ` {0..<length (nodes g)} \<longleftrightarrow> k \<in> {1 .. int (length (nodes g))}"
    proof
      assume "k \<in> (\<lambda>a. int a + 1) ` {0..<length (nodes g)}"
      then show "k \<in> {1 .. int (length (nodes g))}" by auto
    next
      assume k: "k \<in> {1 .. int (length (nodes g))}"
      then have "nat (k - 1) \<in> {0..<length (nodes g)}" and "k = int (nat (k - 1)) + 1"
        by auto
      then show "k \<in> (\<lambda>a. int a + 1) ` {0..<length (nodes g)}" by (rule rev_image_eqI)
    qed
  qed
  then have s: "set (map state (nodes g)) = {1 .. int (length (nodes g))}"
    unfolding m by simp
  have "all_nodes g = [0 ..< length (nodes g)]"
    using i by (simp add: inv_def lists_ok_def)
  with r d s show ?thesis by simp
qed

theorem states_dense_witness:
  "(case build 2 demo_world ''demo.proto'' ''demo.Shape'' of
      Inl e \<Rightarrow> False
    | Inr g \<Rightarrow>
        length (nodes g) = 13 \<and>
        state (node_at g root) = 1 \<and>
        distinct (map state (nodes g)) \<and>
        set (map state (nodes g)) = {1 .. 13} \<and>
        all_nodes g = [0 ..< 13])"
proof (cases "build 2 demo_world ''demo.proto'' ''demo.Shape''")
  case (Inl e)
  moreover have "\<not> isl (build 2 demo_world ''demo.proto'' ''demo.Shape'')"
    by code_simp
  ultimately show ?thesis by simp
next
  case (Inr g)
  have "(case build 2 demo_world ''demo.proto'' ''demo.Shape'' of
           Inl e \<Rightarrow> False | Inr g \<Rightarrow> length (nodes g) = 13)"
    by code_simp
  with Inr have "length (nodes g) = 13" by simp
  with states_dense [OF Inr] Inr show ?thesis by simp
qed

section \<open>The shape of the tree\<close>

text \<open>
  Claim C7. In every graph the builder produces, every \<open>ARRAY\<close> node has exactly one child,
  and every \<open>OUTSIDE_OBJECT\<close> node (the key of a message) has exactly one child, which is an
  \<open>INSIDE_OBJECT\<close> node.
\<close>

theorem single_child:
  assumes "build fuel w fn mn = Inr g" and "a < length (nodes g)"
  shows "(type (node_at g a) = Some ARRAY \<longrightarrow> length (children (node_at g a)) = 1) \<and>
         (type (node_at g a) = Some OUTSIDE_OBJECT \<longrightarrow>
            (\<exists>c. children (node_at g a) = [c] \<and> c < length (nodes g) \<and>
                 type (node_at g c) = Some INSIDE_OBJECT))"
proof -
  have i: "inv g" and c: "closed g" using assms(1) by (rule build_inv)+
  show ?thesis
  proof (intro conjI impI)
    assume "type (node_at g a) = Some ARRAY"
    then have "type (nodes g ! a) \<in> {Some ARRAY, Some OUTSIDE_OBJECT}"
      by (simp add: node_at_def)
    from inv_single(2) [OF i c assms(2) this]
    show "length (children (node_at g a)) = 1" by (simp add: node_at_def)
  next
    assume k: "type (node_at g a) = Some OUTSIDE_OBJECT"
    then have t: "type (nodes g ! a) \<in> {Some ARRAY, Some OUTSIDE_OBJECT}"
      by (simp add: node_at_def)
    note s = inv_single [OF i c assms(2) t]
    from s(4) k have "type (nodes g ! (a + 1)) = Some INSIDE_OBJECT"
      by (auto simp: link_def node_at_def)
    with s(1) s(2) show "\<exists>c. children (node_at g a) = [c] \<and> c < length (nodes g) \<and>
                 type (node_at g c) = Some INSIDE_OBJECT"
      by (simp add: node_at_def)
  qed
qed

theorem single_child_witness:
  "(case build 2 demo_world ''demo.proto'' ''demo.Shape'' of
      Inl e \<Rightarrow> False
    | Inr g \<Rightarrow>
        7 < length (nodes g) \<and> type (node_at g 6) = Some ARRAY \<and>
        length (children (node_at g 6)) = 1 \<and>
        type (node_at g 7) = Some OUTSIDE_OBJECT \<and>
        (\<exists>c. children (node_at g 7) = [c] \<and> c < length (nodes g) \<and>
             type (node_at g c) = Some INSIDE_OBJECT))"
proof (cases "build 2 demo_world ''demo.proto'' ''demo.Shape''")
  case (Inl e)
  moreover have "\<not> isl (build 2 demo_world ''demo.proto'' ''demo.Shape'')"
    by code_simp
  ultimately show ?thesis by simp
next
  case (Inr g)
  have "(case build 2 demo_world ''demo.proto'' ''demo.Shape'' of
           Inl e \<Rightarrow> False
         | Inr g \<Rightarrow> 7 < length (nodes g) \<and> type (node_at g 6) = Some ARRAY \<and>
             type (node_at g 7) = Some OUTSIDE_OBJECT)"
    by code_simp
  with Inr have f: "7 < length (nodes g)" "type (node_at g 6) = Some ARRAY"
    "type (node_at g 7) = Some OUTSIDE_OBJECT" by simp_all
  from f(1) have "6 < length (nodes g)" by simp
  from single_child [OF Inr this] single_child [OF Inr f(1)] f Inr
  show ?thesis by simp
qed

section \<open>Names of array nodes\<close>

text \<open>
  Claim C2, as the code has it. For every \<open>ARRAY\<close> node of a graph the builder produces:
  the node stands for a repeated field \<open>f\<close> under its parent \<open>p\<close> (the enclosing node), its
  \<open>full_name\<close> is the parent's \<open>full_name\<close> followed by the field name, and its single
  child, the element node, has the field name as \<open>name\<close> and the \<open>full_name\<close> of the array node
  followed by \<^verbatim>\<open>[]\<close>. (The claim has the two the other way round.)
\<close>

theorem array_full_names:
  assumes "build fuel w fn mn = Inr g" and "a < length (nodes g)"
    and "type (node_at g a) = Some ARRAY"
  shows "\<exists>p f e. parent (node_at g a) = Some p \<and> type (node_at g p) = Some INSIDE_OBJECT \<and>
           field (node_at g a) = Some f \<and> is_repeated f \<and>
           name (node_at g a) = field_name f \<and>
           full_name (node_at g a) = full_name (node_at g p) @ field_name f \<and>
           children (node_at g a) = [e] \<and> field (node_at g e) = Some f \<and>
           name (node_at g e) = field_name f \<and>
           full_name (node_at g e) = full_name (node_at g p) @ field_name f @ ''[]''"
proof -
  have i: "inv g" and c: "closed g" using assms(1) by (rule build_inv)+
  have t: "type (nodes g ! a) = Some ARRAY" using assms(3) by (simp add: node_at_def)
  have w: "wf_node g a" using i assms(2) by (rule inv_wf)
  have "parent (nodes g ! a) \<noteq> None"
    using wf_node_root [OF w] t by auto
  then obtain p where p: "parent (nodes g ! a) = Some p" by auto
  have l: "link (nodes g ! p) (nodes g ! a)"
    using wf_node_parent [OF w p] by simp
  then obtain f ty where f: "field (nodes g ! a) = Some f"
    and ty: "getNodeTypeForProtoType (field_type f) = Inr ty"
    and nm: "name (nodes g ! a) = field_name f"
    and tp: "type (nodes g ! p) \<in> {Some INSIDE_OBJECT, Some OUTSIDE_OBJECT, Some ARRAY}"
    and ins: "type (nodes g ! p) = Some INSIDE_OBJECT \<longrightarrow>
           type (nodes g ! a) = Some (if is_repeated f then ARRAY else ty) \<and>
           full_name (nodes g ! a) = full_name (nodes g ! p) @ field_name f"
    and out: "type (nodes g ! p) = Some OUTSIDE_OBJECT \<longrightarrow> type (nodes g ! a) = Some INSIDE_OBJECT"
    and arr: "type (nodes g ! p) = Some ARRAY \<longrightarrow> type (nodes g ! a) = Some ty"
    unfolding link_def by blast
  have r: "ty \<in> {BOOL, LONG, DOUBLE, STRING, OUTSIDE_OBJECT}"
    using ty by (rule getNodeType_range)
  have pi: "type (nodes g ! p) = Some INSIDE_OBJECT"
    using tp out arr t r by auto
  with ins t r have rep: "is_repeated f"
    and fn: "full_name (nodes g ! a) = full_name (nodes g ! p) @ field_name f"
    by (auto split: if_splits)
  have ta: "type (nodes g ! a) \<in> {Some ARRAY, Some OUTSIDE_OBJECT}" using t by simp
  note s = inv_single [OF i c assms(2) ta]
  from s(4) t f have e: "field (nodes g ! (a + 1)) = Some f"
    "name (nodes g ! (a + 1)) = field_name f"
    "full_name (nodes g ! (a + 1)) = full_name (nodes g ! a) @ ''[]''"
    by (auto simp: link_def)
  show ?thesis
    using p pi f rep nm fn s(2) e by (simp add: node_at_def)
qed

theorem array_full_names_witness:
  "(case build 2 demo_world ''demo.proto'' ''demo.Shape'' of
      Inl e \<Rightarrow> False
    | Inr g \<Rightarrow>
        6 < length (nodes g) \<and> type (node_at g 6) = Some ARRAY \<and>
        (\<exists>p f e. parent (node_at g 6) = Some p \<and> type (node_at g p) = Some INSIDE_OBJECT \<and>
           field (node_at g 6) = Some f \<and> is_repeated f \<and>
           name (node_at g 6) = field_name f \<and>
           full_name (node_at g 6) = full_name (node_at g p) @ field_name f \<and>
           children (node_at g 6) = [e] \<and> field (node_at g e) = Some f \<and>
           name (node_at g e) = field_name f \<and>
           full_name (node_at g e) = full_name (node_at g p) @ field_name f @ ''[]''))"
proof (cases "build 2 demo_world ''demo.proto'' ''demo.Shape''")
  case (Inl e)
  moreover have "\<not> isl (build 2 demo_world ''demo.proto'' ''demo.Shape'')"
    by code_simp
  ultimately show ?thesis by simp
next
  case (Inr g)
  have "(case build 2 demo_world ''demo.proto'' ''demo.Shape'' of
           Inl e \<Rightarrow> False
         | Inr g \<Rightarrow> 6 < length (nodes g) \<and> type (node_at g 6) = Some ARRAY)"
    by code_simp
  with Inr have f: "6 < length (nodes g)" "type (node_at g 6) = Some ARRAY"
    by simp_all
  from array_full_names [OF Inr f] f Inr show ?thesis by simp
qed

text \<open>
  The claim as stated fails on the repeated field \<^verbatim>\<open>ps\<close> of \<^verbatim>\<open>Shape\<close>: the array node (address
  6, under the root, whose \<open>full_name\<close> is \<^verbatim>\<open>.\<close>) is named \<^verbatim>\<open>.ps\<close>, not \<^verbatim>\<open>.[]\<close>, and its element
  node (address 7) is named \<^verbatim>\<open>.ps[]\<close>, not \<^verbatim>\<open>.ps\<close>.
\<close>

theorem array_full_names_counterexample:
  "\<not> isl (build 2 demo_world ''demo.proto'' ''demo.Shape'') \<and>
   type (node_at (projr (build 2 demo_world ''demo.proto'' ''demo.Shape'')) 6) = Some ARRAY \<and>
   parent (node_at (projr (build 2 demo_world ''demo.proto'' ''demo.Shape'')) 6) = Some 0 \<and>
   children (node_at (projr (build 2 demo_world ''demo.proto'' ''demo.Shape'')) 6) = [7] \<and>
   full_name (node_at (projr (build 2 demo_world ''demo.proto'' ''demo.Shape'')) 0) = ''.'' \<and>
   full_name (node_at (projr (build 2 demo_world ''demo.proto'' ''demo.Shape'')) 6) = ''.ps'' \<and>
   full_name (node_at (projr (build 2 demo_world ''demo.proto'' ''demo.Shape'')) 6) \<noteq>
     full_name (node_at (projr (build 2 demo_world ''demo.proto'' ''demo.Shape'')) 0) @ ''[]'' \<and>
   full_name (node_at (projr (build 2 demo_world ''demo.proto'' ''demo.Shape'')) 7) = ''.ps[]'' \<and>
   full_name (node_at (projr (build 2 demo_world ''demo.proto'' ''demo.Shape'')) 7) \<noteq>
     full_name (node_at (projr (build 2 demo_world ''demo.proto'' ''demo.Shape'')) 0) @ ''ps''"
  by code_simp

lemma unsupported_types:
  "getNodeTypeForProtoType t = Inl e \<Longrightarrow>
     t \<in> {TYPE_UINT64, TYPE_BYTES, TYPE_GROUP} \<and>
     e = runtime_error (''Unsupported protobuf type '' @ to_string (type_tag t))"
  by (cases t) simp_all

lemma node_field_supported:
  assumes i: "inv g" and a: "a < length (nodes g)" and f: "field (nodes g ! a) = Some f"
  shows "\<exists>ty. getNodeTypeForProtoType (field_type f) = Inr ty"
proof -
  have w: "wf_node g a" using i a by (rule inv_wf)
  have "parent (nodes g ! a) \<noteq> None"
    using wf_node_root [OF w] f by auto
  then obtain p where "parent (nodes g ! a) = Some p" by auto
  from wf_node_parent [OF w this] have "link (nodes g ! p) (nodes g ! a)" by simp
  with f show ?thesis by (auto simp: link_def)
qed

lemma unsupported_throws:
  "t \<in> {TYPE_UINT64, TYPE_BYTES, TYPE_GROUP} \<Longrightarrow>
     getNodeTypeForProtoType t =
       Inl (runtime_error (''Unsupported protobuf type '' @ to_string (type_tag t)))"
  by auto

section \<open>Unsupported field types\<close>

text \<open>
  Claim C4, as the code has it. A field of type \<^verbatim>\<open>TYPE_UINT64\<close> or \<^verbatim>\<open>TYPE_BYTES\<close> (or
  \<^verbatim>\<open>TYPE_GROUP\<close>, which has no case of its own either) makes \<^verbatim>\<open>getNodeTypeForProtoType\<close>
  throw, and with it the loop of \<^verbatim>\<open>parseMessageDescRec\<close> when it reaches the field, before it
  allocates anything for it. The exception is a \<^verbatim>\<open>std::runtime_error\<close> whose message is
  \<^verbatim>\<open>Unsupported protobuf type\<close> and the number of the type; it does not depend on the node or
  on the name of the field. No graph the builder produces has a node for such a field.
\<close>

theorem unsupported_type_fails:
  assumes "field_type f \<in> {TYPE_UINT64, TYPE_BYTES, TYPE_GROUP}"
  shows "getNodeTypeForProtoType (field_type f) =
           Inl (runtime_error
                  (''Unsupported protobuf type '' @ to_string (type_tag (field_type f)))) \<and>
         parseMessageDescRec fuel dsc (f # rest) node g =
           Inl (runtime_error
                  (''Unsupported protobuf type '' @ to_string (type_tag (field_type f)))) \<and>
         (\<forall>fuel' w fn mn g' a. build fuel' w fn mn = Inr g' \<longrightarrow> a < length (nodes g') \<longrightarrow>
            field (node_at g' a) \<noteq> Some f)"
proof (intro conjI allI impI)
  show t: "getNodeTypeForProtoType (field_type f) =
           Inl (runtime_error
                  (''Unsupported protobuf type '' @ to_string (type_tag (field_type f))))"
    using assms by (rule unsupported_throws)
  show "parseMessageDescRec fuel dsc (f # rest) node g =
           Inl (runtime_error
                  (''Unsupported protobuf type '' @ to_string (type_tag (field_type f))))"
    by (simp add: parse_Cons visit_field_def t)
  fix fuel' w fn mn g' a
  assume b: "build fuel' w fn mn = Inr g'" and a: "a < length (nodes g')"
  have i: "inv g'" using b by (rule build_inv)
  show "field (node_at g' a) \<noteq> Some f"
  proof
    assume "field (node_at g' a) = Some f"
    then have "field (nodes g' ! a) = Some f" by (simp add: node_at_def)
    from node_field_supported [OF i a this] t show False by simp
  qed
qed

text \<open>The three types, each as the only field of \<^verbatim>\<open>Blob\<close>, with the numbers 4, 12 and 10.\<close>

theorem unsupported_type_fails_witness:
  "field_type (scalar_field ''data'' TYPE_UINT64 LABEL_OPTIONAL)
     \<in> {TYPE_UINT64, TYPE_BYTES, TYPE_GROUP} \<and>
   getNodeTypeForProtoType (field_type (scalar_field ''data'' TYPE_UINT64 LABEL_OPTIONAL)) =
     Inl (runtime_error ''Unsupported protobuf type 4'') \<and>
   parseMessageDescRec 1 Blob [scalar_field ''data'' TYPE_UINT64 LABEL_OPTIONAL] root
       (projr (Graph_init demo_world ''demo.proto'' ''demo.Blob'')) =
     Inl (runtime_error ''Unsupported protobuf type 4'') \<and>
   getNodeTypeForProtoType (field_type (scalar_field ''data'' TYPE_BYTES LABEL_OPTIONAL)) =
     Inl (runtime_error ''Unsupported protobuf type 12'') \<and>
   parseMessageDescRec 1 Blob [scalar_field ''data'' TYPE_BYTES LABEL_OPTIONAL] root
       (projr (Graph_init demo_world ''demo.proto'' ''demo.Blob'')) =
     Inl (runtime_error ''Unsupported protobuf type 12'') \<and>
   getNodeTypeForProtoType (field_type (scalar_field ''data'' TYPE_GROUP LABEL_OPTIONAL)) =
     Inl (runtime_error ''Unsupported protobuf type 10'') \<and>
   parseMessageDescRec 1 Blob [scalar_field ''data'' TYPE_GROUP LABEL_OPTIONAL] root
       (projr (Graph_init demo_world ''demo.proto'' ''demo.Blob'')) =
     Inl (runtime_error ''Unsupported protobuf type 10'')"
proof -
  have h: "field_type (scalar_field ''data'' TYPE_UINT64 LABEL_OPTIONAL)
             \<in> {TYPE_UINT64, TYPE_BYTES, TYPE_GROUP}"
    "field_type (scalar_field ''data'' TYPE_BYTES LABEL_OPTIONAL)
             \<in> {TYPE_UINT64, TYPE_BYTES, TYPE_GROUP}"
    "field_type (scalar_field ''data'' TYPE_GROUP LABEL_OPTIONAL)
             \<in> {TYPE_UINT64, TYPE_BYTES, TYPE_GROUP}"
    by (simp_all add: scalar_field_def)
  have n: "to_string (type_tag TYPE_UINT64) = ''4''" "to_string (type_tag TYPE_BYTES) = ''12''"
    "to_string (type_tag TYPE_GROUP) = ''10''"
    by code_simp+
  have ft: "\<And>t. field_type (scalar_field ''data'' t LABEL_OPTIONAL) = t"
    by (simp add: scalar_field_def)
  from unsupported_type_fails [OF h(1), of 1 Blob "[]" root
      "projr (Graph_init demo_world ''demo.proto'' ''demo.Blob'')"]
    unsupported_type_fails [OF h(2), of 1 Blob "[]" root
      "projr (Graph_init demo_world ''demo.proto'' ''demo.Blob'')"]
    unsupported_type_fails [OF h(3), of 1 Blob "[]" root
      "projr (Graph_init demo_world ''demo.proto'' ''demo.Blob'')"]
    h(1)
  show ?thesis
    unfolding ft n by simp
qed

text \<open>
  The claim as stated fails on \<^verbatim>\<open>message Blob { optional bytes data = 1; }\<close>: the builder
  throws, but the message of the exception holds the number of the type only; neither the
  path \<^verbatim>\<open>.data\<close> of the field nor its name occurs in it.
\<close>

theorem unsupported_type_counterexample:
  "isl (build 1 demo_world ''demo.proto'' ''demo.Blob'') \<and>
   projl (build 1 demo_world ''demo.proto'' ''demo.Blob'') =
     runtime_error ''Unsupported protobuf type 12'' \<and>
   \<not> sublist ''.data'' ''Unsupported protobuf type 12'' \<and>
   \<not> sublist ''data'' ''Unsupported protobuf type 12''"
  by code_simp

lemma printMapEnd_case:
  assumes "printMapEndStateImpl g n = Inr c"
  shows "case_label c = state (node_at g n)"
    and "case_body c =
      (case parent (node_at g n) of
         None \<Rightarrow> [SetLocation 0, PopBack, AssertEmpty]
       | Some p \<Rightarrow>
           (case parent (node_at g p) of
              None \<Rightarrow> [SetLocation 0, PopBack, AssertEmpty]
            | Some gp \<Rightarrow>
                [SetLocation (if type (node_at g gp) = Some ARRAY then state (node_at g p)
                              else state (node_at g gp)),
                 PopBack]))"
proof -
  show "case_label c = state (node_at g n)"
    using assms
    by (cases "parent (node_at g n)"; cases "parent (node_at g (the (parent (node_at g n))))")
      (auto simp: printMapEndStateImpl_def Let_def elim!: bindE_E)
  show "case_body c =
      (case parent (node_at g n) of
         None \<Rightarrow> [SetLocation 0, PopBack, AssertEmpty]
       | Some p \<Rightarrow>
           (case parent (node_at g p) of
              None \<Rightarrow> [SetLocation 0, PopBack, AssertEmpty]
            | Some gp \<Rightarrow>
                [SetLocation (if type (node_at g gp) = Some ARRAY then state (node_at g p)
                              else state (node_at g gp)),
                 PopBack]))"
    using assms
    by (cases "parent (node_at g n)"; cases "parent (node_at g (the (parent (node_at g n))))")
      (auto simp: printMapEndStateImpl_def Let_def elim!: bindE_E)
qed

lemma object_nodes_member:
  assumes "inv g" and "n < length (nodes g)" and "type (node_at g n) = Some INSIDE_OBJECT"
  shows "n \<in> set (object_nodes g)"
proof -
  have "object_nodes g =
      filter (\<lambda>a. type (nodes g ! a) = Some INSIDE_OBJECT) [0..<length (nodes g)]"
    using assms(1) by (simp add: inv_def lists_ok_def)
  with assms(2,3) show ?thesis by (simp add: node_at_def)
qed

section \<open>The handler of \<^verbatim>\<open>end_map\<close>\<close>

text \<open>
  Claim C1. For every \<open>INSIDE_OBJECT\<close> node \<open>n\<close> of a graph the builder produces: at the state
  of \<open>n\<close>, the emitted \<^verbatim>\<open>end_map\<close> handler does what the specification says (\<open>spec_end_map\<close>):
  for the root, or a node one level under it, the location becomes 0 and the stack is popped
  and must then be empty; otherwise the stack is popped and the location becomes the state of
  the parent if the grandparent is an \<open>ARRAY\<close> node, the state of the grandparent if not.
\<close>

theorem end_map_dispatch:
  assumes "build fuel w fn mn = Inr g" and "printSourceImpl hash g = Inr hs"
    and "n < length (nodes g)" and "type (node_at g n) = Some INSIDE_OBJECT"
    and "location st = state (node_at g n)"
  shows "callback hash hs yajl_end_map st = spec_end_map g n st"
proof -
  have i: "inv g" using assms(1) by (rule build_inv)
  have l: "lists_ok g" using i by (simp add: inv_def)
  have m: "n \<in> set (object_nodes g)"
    using i assms(3,4) by (rule object_nodes_member)
  have e: "mapE (printMapEndStateImpl g) (object_nodes g) = Inr (parse_end_map hs)"
    using printSourceImpl_parts(8) [OF assms(2)] by (simp add: printMapEndImpl_def)
  have "\<exists>c. printMapEndStateImpl g n = Inr c \<and>
          find (\<lambda>c. case_label c = state (node_at g n)) (parse_end_map hs) = Some c"
    using e m
  proof (rule mapE_find)
    fix m c assume "printMapEndStateImpl g m = Inr c"
    then show "case_label c = state (node_at g m)" by (rule printMapEnd_case(1))
  next
    show "inj_on (\<lambda>a. state (node_at g a)) (set (object_nodes g))"
      using i lists_ok_bounds(3) [OF l] by (rule inv_state_inj)
  qed
  then obtain c where c: "printMapEndStateImpl g n = Inr c"
    and f: "find (\<lambda>c. case_label c = state (node_at g n)) (parse_end_map hs) = Some c"
    by blast
  note b = printMapEnd_case(2) [OF c]
  show ?thesis
  proof (cases "msgStack st = []")
    case True
    then show ?thesis
      using f b assms(5)
      by (simp add: callback_def switch_location_def spec_end_map_def Let_def
          split: option.splits)
  next
    case False
    then show ?thesis
      using f b assms(5)
      by (simp add: callback_def switch_location_def spec_end_map_def Let_def
          split: option.splits)
  qed
qed

theorem end_map_dispatch_witness:
  "(case build 2 demo_world ''demo.proto'' ''demo.Shape'' of
      Inl e \<Rightarrow> False
    | Inr g \<Rightarrow>
        (case printSourceImpl demo_hash g of
           Inl e \<Rightarrow> False
         | Inr hs \<Rightarrow>
             8 < length (nodes g) \<and> type (node_at g 8) = Some INSIDE_OBJECT \<and>
             parent (node_at g 8) = Some 7 \<and> parent (node_at g 7) = Some 6 \<and>
             type (node_at g 6) = Some ARRAY \<and> state (node_at g 7) = 8 \<and>
             location demo_state = state (node_at g 8) \<and>
             callback demo_hash hs yajl_end_map demo_state =
               Inr \<lparr>checkInitialized = True, location = 8, msgStack = [Req],
                     calls = [CheckInitialized (Sub Req ''add'' ''ps'')]\<rparr>))"
proof (cases "build 2 demo_world ''demo.proto'' ''demo.Shape''")
  case (Inl e)
  moreover have "\<not> isl (build 2 demo_world ''demo.proto'' ''demo.Shape'')"
    by code_simp
  ultimately show ?thesis by simp
next
  case g: (Inr g)
  have "(case build 2 demo_world ''demo.proto'' ''demo.Shape'' of
           Inl e \<Rightarrow> False
         | Inr g \<Rightarrow> \<not> isl (printSourceImpl demo_hash g) \<and>
             8 < length (nodes g) \<and> type (node_at g 8) = Some INSIDE_OBJECT \<and>
             parent (node_at g 8) = Some 7 \<and> parent (node_at g 7) = Some 6 \<and>
             type (node_at g 6) = Some ARRAY \<and> state (node_at g 7) = 8 \<and>
             location demo_state = state (node_at g 8) \<and>
             spec_end_map g 8 demo_state =
               Inr \<lparr>checkInitialized = True, location = 8, msgStack = [Req],
                     calls = [CheckInitialized (Sub Req ''add'' ''ps'')]\<rparr>)"
    by code_simp
  with g have p: "\<not> isl (printSourceImpl demo_hash g)"
    and f: "8 < length (nodes g)" "type (node_at g 8) = Some INSIDE_OBJECT"
      "location demo_state = state (node_at g 8)"
    and r: "parent (node_at g 8) = Some 7" "parent (node_at g 7) = Some 6"
      "type (node_at g 6) = Some ARRAY" "state (node_at g 7) = 8"
    and s: "spec_end_map g 8 demo_state =
               Inr \<lparr>checkInitialized = True, location = 8, msgStack = [Req],
                     calls = [CheckInitialized (Sub Req ''add'' ''ps'')]\<rparr>"
    by simp_all
  show ?thesis
  proof (cases "printSourceImpl demo_hash g")
    case (Inl e)
    with p show ?thesis by simp
  next
    case (Inr hs)
    from end_map_dispatch [OF g Inr f] s g Inr f r show ?thesis by simp
  qed
qed

lemma printPod_case:
  assumes "printPodStateImpl g n = Inr c"
  shows "case_label c = state (node_at g n)"
    and "\<exists>d T f. desc (node_at g n) = Some d \<and>
           get_full_cpp_type_name (desc_full_name d) = Inr T \<and>
           field (node_at g n) = Some f \<and>
           (field_type f \<noteq> TYPE_ENUM \<longrightarrow>
              (is_repeated f \<longrightarrow>
                 case_body c = [CallSetter T ''add'' (name (node_at g n)) None]) \<and>
              (\<not> is_repeated f \<longrightarrow>
                 (\<exists>p. parent (node_at g n) = Some p \<and>
                    case_body c = [CallSetter T ''set'' (name (node_at g n)) None,
                                   SetLocation (state (node_at g p))])))"
proof -
  from assms have
    "bindE (deref (desc (node_at g n))) (\<lambda>d.
     bindE (get_full_cpp_type_name (desc_full_name d)) (\<lambda>cpp_type.
     bindE (deref (field (node_at g n))) (\<lambda>f.
     bindE (if field_type f = TYPE_ENUM then
              bindE (deref (enum_type f)) (\<lambda>e.
              bindE (get_full_cpp_type_name e) (\<lambda>enum_type. Inr (Some enum_type)))
            else Inr None) (\<lambda>cast.
     bindE (if \<not> is_repeated f then
              bindE (deref (parent (node_at g n))) (\<lambda>p. Inr [SetLocation (state (node_at g p))])
            else Inr []) (\<lambda>rest.
     Inr (Case (state (node_at g n)) (full_name (node_at g n))
            (CallSetter cpp_type (if is_repeated f then ''add'' else ''set'')
               (name (node_at g n)) cast # rest))))))) = Inr c"
    by (simp add: printPodStateImpl_def Let_def)
  then have "case_label c = state (node_at g n) \<and>
        (\<exists>d T f. desc (node_at g n) = Some d \<and>
           get_full_cpp_type_name (desc_full_name d) = Inr T \<and>
           field (node_at g n) = Some f \<and>
           (field_type f \<noteq> TYPE_ENUM \<longrightarrow>
              (is_repeated f \<longrightarrow>
                 case_body c = [CallSetter T ''add'' (name (node_at g n)) None]) \<and>
              (\<not> is_repeated f \<longrightarrow>
                 (\<exists>p. parent (node_at g n) = Some p \<and>
                    case_body c = [CallSetter T ''set'' (name (node_at g n)) None,
                                   SetLocation (state (node_at g p))]))))"
  proof (cases rule: bindE_E)
    case a1: (bind d)
    from a1(1) have d: "desc (node_at g n) = Some d" by (cases rule: deref_E)
    from a1(2) show ?thesis
    proof (cases rule: bindE_E)
      case a2: (bind T)
      from a2(2) show ?thesis
      proof (cases rule: bindE_E)
        case a3: (bind f)
        from a3(1) have f: "field (node_at g n) = Some f" by (cases rule: deref_E)
        from a3(2) show ?thesis
        proof (cases rule: bindE_E)
          case a4: (bind cast)
          from a4(2) show ?thesis
          proof (cases rule: bindE_E)
            case a5: (bind rest)
            from a5(2) have c: "c = Case (state (node_at g n)) (full_name (node_at g n))
                (CallSetter T (if is_repeated f then ''add'' else ''set'')
                   (name (node_at g n)) cast # rest)"
              by simp
            have k: "field_type f \<noteq> TYPE_ENUM \<Longrightarrow> cast = None"
              using a4(1) by simp
            have r: "is_repeated f \<Longrightarrow> rest = []"
              using a5(1) by simp
            have s: "\<exists>p. parent (node_at g n) = Some p \<and>
                       rest = [SetLocation (state (node_at g p))]"
              if "\<not> is_repeated f"
            proof -
              from that a5(1) have
                "bindE (deref (parent (node_at g n)))
                   (\<lambda>p. Inr [SetLocation (state (node_at g p))]) = Inr rest"
                by simp
              then show ?thesis
              proof (cases rule: bindE_E)
                case (bind p)
                from bind(1) have "parent (node_at g n) = Some p" by (cases rule: deref_E)
                with bind(2) show ?thesis by auto
              qed
            qed
            have l: "case_label c = state (node_at g n)" using c by simp
            have "field_type f \<noteq> TYPE_ENUM \<longrightarrow>
              (is_repeated f \<longrightarrow>
                 case_body c = [CallSetter T ''add'' (name (node_at g n)) None]) \<and>
              (\<not> is_repeated f \<longrightarrow>
                 (\<exists>p. parent (node_at g n) = Some p \<and>
                    case_body c = [CallSetter T ''set'' (name (node_at g n)) None,
                                   SetLocation (state (node_at g p))]))"
            proof (intro impI conjI)
              assume "field_type f \<noteq> TYPE_ENUM" and "is_repeated f"
              with k r c show "case_body c = [CallSetter T ''add'' (name (node_at g n)) None]"
                by simp
            next
              assume e: "field_type f \<noteq> TYPE_ENUM" and n: "\<not> is_repeated f"
              from s [OF n] obtain p where "parent (node_at g n) = Some p"
                and "rest = [SetLocation (state (node_at g p))]" by blast
              with k [OF e] n c
              show "\<exists>p. parent (node_at g n) = Some p \<and>
                    case_body c = [CallSetter T ''set'' (name (node_at g n)) None,
                                   SetLocation (state (node_at g p))]"
                by simp
            qed
            with l d a2(1) f show ?thesis by blast
          qed
        qed
      qed
    qed
  qed
  then show "case_label c = state (node_at g n)"
    and "\<exists>d T f. desc (node_at g n) = Some d \<and>
           get_full_cpp_type_name (desc_full_name d) = Inr T \<and>
           field (node_at g n) = Some f \<and>
           (field_type f \<noteq> TYPE_ENUM \<longrightarrow>
              (is_repeated f \<longrightarrow>
                 case_body c = [CallSetter T ''add'' (name (node_at g n)) None]) \<and>
              (\<not> is_repeated f \<longrightarrow>
                 (\<exists>p. parent (node_at g n) = Some p \<and>
                    case_body c = [CallSetter T ''set'' (name (node_at g n)) None,
                                   SetLocation (state (node_at g p))])))"
    by blast+
qed

text \<open>The field of a \<open>BOOL\<close> or \<open>DOUBLE\<close> node is no enum.\<close>

lemma pod_field_no_enum:
  assumes i: "inv g" and a: "n < length (nodes g)"
    and t: "type (nodes g ! n) \<in> {Some BOOL, Some DOUBLE}"
    and f: "field (nodes g ! n) = Some f"
  shows "field_type f \<noteq> TYPE_ENUM"
proof
  assume e: "field_type f = TYPE_ENUM"
  have w: "wf_node g n" using i a by (rule inv_wf)
  show False
  proof (cases "parent (nodes g ! n)")
    case None
    from wf_node_root [OF w None] t show False by auto
  next
    case (Some p)
    from wf_node_parent [OF w Some] have "link (nodes g ! p) (nodes g ! n)" by simp
    then obtain f' ty where f': "field (nodes g ! n) = Some f'"
      and g: "getNodeTypeForProtoType (field_type f') = Inr ty"
      and tp: "type (nodes g ! p) \<in> {Some INSIDE_OBJECT, Some OUTSIDE_OBJECT, Some ARRAY}"
      and c1: "type (nodes g ! p) = Some INSIDE_OBJECT \<longrightarrow>
                 type (nodes g ! n) = Some (if is_repeated f' then ARRAY else ty)"
      and c2: "type (nodes g ! p) = Some OUTSIDE_OBJECT \<longrightarrow>
                 type (nodes g ! n) = Some INSIDE_OBJECT"
      and c3: "type (nodes g ! p) = Some ARRAY \<longrightarrow> type (nodes g ! n) = Some ty"
      unfolding link_def by blast
    from f f' have "f' = f" by simp
    with g e have ty: "ty = LONG" by simp
    from tp consider "type (nodes g ! p) = Some INSIDE_OBJECT"
      | "type (nodes g ! p) = Some OUTSIDE_OBJECT" | "type (nodes g ! p) = Some ARRAY"
      by auto
    then show False
    proof cases
      case 1
      with c1 ty t show False by (auto split: if_splits)
    next
      case 2
      with c2 t show False by auto
    next
      case 3
      with c3 ty t show False by auto
    qed
  qed
qed

section \<open>Integers for booleans and doubles\<close>

text \<open>
  Claim C8. In every graph the builder produces, every node of \<open>bool_nodes\<close> and every node
  of \<open>double_nodes\<close> is in \<open>long_nodes\<close>. So the emitted handler of integers accepts an
  integer at the state of a \<open>BOOL\<close> or \<open>DOUBLE\<close> node: with a message on the stack it calls
  the setter of the node's field on the top of the stack with the integer (\<^verbatim>\<open>add_\<close> for a
  repeated field; \<^verbatim>\<open>set_\<close> otherwise, and then the location becomes the state of the parent).
\<close>

theorem integer_widening:
  assumes "build fuel w fn mn = Inr g"
  shows "set (bool_nodes g) \<subseteq> set (long_nodes g) \<and>
         set (double_nodes g) \<subseteq> set (long_nodes g) \<and>
         (\<forall>hash hs n v st.
            printSourceImpl hash g = Inr hs \<longrightarrow>
            n < length (nodes g) \<longrightarrow>
            type (node_at g n) \<in> {Some BOOL, Some DOUBLE} \<longrightarrow>
            location st = state (node_at g n) \<longrightarrow>
            msgStack st \<noteq> [] \<longrightarrow>
            n \<in> set (long_nodes g) \<and>
            (\<exists>d T f. desc (node_at g n) = Some d \<and>
               get_full_cpp_type_name (desc_full_name d) = Inr T \<and>
               field (node_at g n) = Some f \<and>
               (is_repeated f \<longrightarrow>
                  callback hash hs (yajl_integer v) st =
                    Inr (st\<lparr>calls := calls st @
                           [Setter (last (msgStack st)) T ''add'' (name (node_at g n)) None
                              (yajl_integer v)]\<rparr>)) \<and>
               (\<not> is_repeated f \<longrightarrow>
                  (\<exists>p. parent (node_at g n) = Some p \<and>
                     callback hash hs (yajl_integer v) st =
                       Inr (st\<lparr>calls := calls st @
                              [Setter (last (msgStack st)) T ''set'' (name (node_at g n)) None
                                 (yajl_integer v)],
                            location := state (node_at g p)\<rparr>)))))"
proof -
  have i: "inv g" using assms by (rule build_inv)
  have l: "lists_ok g" using i by (simp add: inv_def)
  have b: "set (bool_nodes g) \<subseteq> set (long_nodes g)"
    using l by (auto simp: lists_ok_def)
  have d: "set (double_nodes g) \<subseteq> set (long_nodes g)"
    using l by (auto simp: lists_ok_def)
  have h: "n \<in> set (long_nodes g) \<and>
            (\<exists>d T f. desc (node_at g n) = Some d \<and>
               get_full_cpp_type_name (desc_full_name d) = Inr T \<and>
               field (node_at g n) = Some f \<and>
               (is_repeated f \<longrightarrow>
                  callback hash hs (yajl_integer v) st =
                    Inr (st\<lparr>calls := calls st @
                           [Setter (last (msgStack st)) T ''add'' (name (node_at g n)) None
                              (yajl_integer v)]\<rparr>)) \<and>
               (\<not> is_repeated f \<longrightarrow>
                  (\<exists>p. parent (node_at g n) = Some p \<and>
                     callback hash hs (yajl_integer v) st =
                       Inr (st\<lparr>calls := calls st @
                              [Setter (last (msgStack st)) T ''set'' (name (node_at g n)) None
                                 (yajl_integer v)],
                            location := state (node_at g p)\<rparr>))))"
    if p: "printSourceImpl hash g = Inr hs" and n: "n < length (nodes g)"
      and t: "type (node_at g n) \<in> {Some BOOL, Some DOUBLE}"
      and s: "location st = state (node_at g n)" and m: "msgStack st \<noteq> []"
    for hash hs n v st
  proof -
    have "long_nodes g =
        filter (\<lambda>a. type (nodes g ! a) \<in> {Some BOOL, Some LONG, Some DOUBLE})
          [0..<length (nodes g)]"
      using l by (simp add: lists_ok_def)
    with n t have mem: "n \<in> set (long_nodes g)" by (auto simp: node_at_def)
    have e: "mapE (printPodStateImpl g) (long_nodes g) = Inr (parse_integer hs)"
      using printSourceImpl_parts(3) [OF p] by (simp add: printPodImpl_def)
    have "\<exists>c. printPodStateImpl g n = Inr c \<and>
            find (\<lambda>c. case_label c = state (node_at g n)) (parse_integer hs) = Some c"
      using e mem
    proof (rule mapE_find)
      fix m c assume "printPodStateImpl g m = Inr c"
      then show "case_label c = state (node_at g m)" by (rule printPod_case(1))
    next
      show "inj_on (\<lambda>a. state (node_at g a)) (set (long_nodes g))"
        using i lists_ok_bounds(2) [OF l] by (rule inv_state_inj)
    qed
    then obtain c where c: "printPodStateImpl g n = Inr c"
      and f: "find (\<lambda>c. case_label c = state (node_at g n)) (parse_integer hs) = Some c"
      by blast
    from printPod_case(2) [OF c] obtain d T fd where
      d: "desc (node_at g n) = Some d"
      and T: "get_full_cpp_type_name (desc_full_name d) = Inr T"
      and fd: "field (node_at g n) = Some fd"
      and body: "field_type fd \<noteq> TYPE_ENUM \<longrightarrow>
              (is_repeated fd \<longrightarrow>
                 case_body c = [CallSetter T ''add'' (name (node_at g n)) None]) \<and>
              (\<not> is_repeated fd \<longrightarrow>
                 (\<exists>p. parent (node_at g n) = Some p \<and>
                    case_body c = [CallSetter T ''set'' (name (node_at g n)) None,
                                   SetLocation (state (node_at g p))]))"
      by blast
    have ne: "field_type fd \<noteq> TYPE_ENUM"
      using i n t fd by (intro pod_field_no_enum [of g n fd]) (simp_all add: node_at_def)
    have cb: "callback hash hs (yajl_integer v) st =
                exec_body hash (yajl_integer v) (case_body c) st"
      using f s by (simp add: callback_def switch_location_def)
    have r: "callback hash hs (yajl_integer v) st =
               Inr (st\<lparr>calls := calls st @
                      [Setter (last (msgStack st)) T ''add'' (name (node_at g n)) None
                         (yajl_integer v)]\<rparr>)"
      if "is_repeated fd"
    proof -
      from body ne that
      have "case_body c = [CallSetter T ''add'' (name (node_at g n)) None]" by simp
      with cb m show ?thesis by simp
    qed
    have q: "\<exists>p. parent (node_at g n) = Some p \<and>
               callback hash hs (yajl_integer v) st =
                 Inr (st\<lparr>calls := calls st @
                        [Setter (last (msgStack st)) T ''set'' (name (node_at g n)) None
                           (yajl_integer v)],
                      location := state (node_at g p)\<rparr>)"
      if "\<not> is_repeated fd"
    proof -
      from body ne that obtain p where pp: "parent (node_at g n) = Some p"
        and cc: "case_body c = [CallSetter T ''set'' (name (node_at g n)) None,
                                SetLocation (state (node_at g p))]"
        by blast
      from cb cc m have "callback hash hs (yajl_integer v) st =
                 Inr (st\<lparr>calls := calls st @
                        [Setter (last (msgStack st)) T ''set'' (name (node_at g n)) None
                           (yajl_integer v)],
                      location := state (node_at g p)\<rparr>)"
        by simp
      with pp show ?thesis by blast
    qed
    from mem d T fd r q show ?thesis by blast
  qed
  from b d h show ?thesis by blast
qed

theorem integer_widening_witness:
  "(case build 2 demo_world ''demo.proto'' ''demo.Shape'' of
      Inl e \<Rightarrow> False
    | Inr g \<Rightarrow>
        (case printSourceImpl demo_hash g of
           Inl e \<Rightarrow> False
         | Inr hs \<Rightarrow>
             bool_nodes g = [11] \<and> double_nodes g = [12] \<and>
             long_nodes g = [4, 5, 9, 10, 11, 12] \<and>
             set (bool_nodes g) \<subseteq> set (long_nodes g) \<and>
             set (double_nodes g) \<subseteq> set (long_nodes g) \<and>
             type (node_at g 11) = Some BOOL \<and> state (node_at g 11) = 12 \<and>
             callback demo_hash hs (yajl_integer 1)
               \<lparr>checkInitialized = True, location = 12, msgStack = [Req], calls = []\<rparr> =
               Inr \<lparr>checkInitialized = True, location = 1, msgStack = [Req],
                     calls = [Setter Req ''::demo::Shape'' ''set'' ''solid'' None
                                (yajl_integer 1)]\<rparr>))"
proof (cases "build 2 demo_world ''demo.proto'' ''demo.Shape''")
  case (Inl e)
  moreover have "\<not> isl (build 2 demo_world ''demo.proto'' ''demo.Shape'')"
    by code_simp
  ultimately show ?thesis by simp
next
  case g: (Inr g)
  have "(case build 2 demo_world ''demo.proto'' ''demo.Shape'' of
           Inl e \<Rightarrow> False
         | Inr g \<Rightarrow> \<not> isl (printSourceImpl demo_hash g) \<and>
             bool_nodes g = [11] \<and> double_nodes g = [12] \<and>
             long_nodes g = [4, 5, 9, 10, 11, 12] \<and>
             11 < length (nodes g) \<and> type (node_at g 11) = Some BOOL \<and>
             state (node_at g 11) = 12 \<and> name (node_at g 11) = ''solid'' \<and>
             parent (node_at g 11) = Some 0 \<and> state (node_at g 0) = 1 \<and>
             \<not> is_repeated (the (field (node_at g 11))) \<and>
             get_full_cpp_type_name (desc_full_name (the (desc (node_at g 11)))) =
               Inr ''::demo::Shape'')"
    by code_simp
  with g have p: "\<not> isl (printSourceImpl demo_hash g)"
    and ls: "bool_nodes g = [11]" "double_nodes g = [12]" "long_nodes g = [4, 5, 9, 10, 11, 12]"
    and n: "11 < length (nodes g)" and t: "type (node_at g 11) = Some BOOL"
    and s: "state (node_at g 11) = 12" and nm: "name (node_at g 11) = ''solid''"
    and pa: "parent (node_at g 11) = Some 0" and s0: "state (node_at g 0) = 1"
    and nr: "\<not> is_repeated (the (field (node_at g 11)))"
    and T: "get_full_cpp_type_name (desc_full_name (the (desc (node_at g 11)))) =
               Inr ''::demo::Shape''"
    by simp_all
  show ?thesis
  proof (cases "printSourceImpl demo_hash g")
    case (Inl e)
    with p show ?thesis by simp
  next
    case (Inr hs)
    define st where "st = \<lparr>checkInitialized = True, location = 12, msgStack = [Req], calls = []\<rparr>"
    have t': "type (node_at g 11) \<in> {Some BOOL, Some DOUBLE}" using t by simp
    have l: "location st = state (node_at g 11)" using s by (simp add: st_def)
    have m: "msgStack st \<noteq> []" by (simp add: st_def)
    note th = integer_widening [OF g]
    from th have sub: "set (bool_nodes g) \<subseteq> set (long_nodes g)"
      "set (double_nodes g) \<subseteq> set (long_nodes g)" by simp_all
    from th Inr n t' l m have
      "\<exists>d T f. desc (node_at g 11) = Some d \<and>
               get_full_cpp_type_name (desc_full_name d) = Inr T \<and>
               field (node_at g 11) = Some f \<and>
               (is_repeated f \<longrightarrow>
                  callback demo_hash hs (yajl_integer 1) st =
                    Inr (st\<lparr>calls := calls st @
                           [Setter (last (msgStack st)) T ''add'' (name (node_at g 11)) None
                              (yajl_integer 1)]\<rparr>)) \<and>
               (\<not> is_repeated f \<longrightarrow>
                  (\<exists>p. parent (node_at g 11) = Some p \<and>
                     callback demo_hash hs (yajl_integer 1) st =
                       Inr (st\<lparr>calls := calls st @
                              [Setter (last (msgStack st)) T ''set'' (name (node_at g 11)) None
                                 (yajl_integer 1)],
                            location := state (node_at g p)\<rparr>)))"
      by blast
    then obtain d T' f where "desc (node_at g 11) = Some d"
      and "get_full_cpp_type_name (desc_full_name d) = Inr T'"
      and "field (node_at g 11) = Some f"
      and "\<not> is_repeated f \<longrightarrow>
                  (\<exists>p. parent (node_at g 11) = Some p \<and>
                     callback demo_hash hs (yajl_integer 1) st =
                       Inr (st\<lparr>calls := calls st @
                              [Setter (last (msgStack st)) T' ''set'' (name (node_at g 11)) None
                                 (yajl_integer 1)],
                            location := state (node_at g p)\<rparr>))"
      by blast
    with nr T pa have "callback demo_hash hs (yajl_integer 1) st =
                       Inr (st\<lparr>calls := calls st @
                              [Setter (last (msgStack st)) ''::demo::Shape'' ''set''
                                 (name (node_at g 11)) None (yajl_integer 1)],
                            location := state (node_at g 0)\<rparr>)"
      by auto
    then have "callback demo_hash hs (yajl_integer 1)
               \<lparr>checkInitialized = True, location = 12, msgStack = [Req], calls = []\<rparr> =
               Inr \<lparr>checkInitialized = True, location = 1, msgStack = [Req],
                     calls = [Setter Req ''::demo::Shape'' ''set'' ''solid'' None
                                (yajl_integer 1)]\<rparr>"
      by (simp add: st_def nm s0)
    with g Inr ls sub t s show ?thesis by simp
  qed
qed

lemma printNull_case:
  assumes "printNullStateImpl g n = Inr c"
  shows "case_label c = state (node_at g n)"
    and "\<exists>d T p. desc (node_at g n) = Some d \<and>
           get_full_cpp_type_name (desc_full_name d) = Inr T \<and>
           parent (node_at g n) = Some p \<and>
           case_body c = [ClearField T (name (node_at g n)), SetLocation (state (node_at g p))]"
proof -
  from assms have
    "bindE (deref (desc (node_at g n))) (\<lambda>d.
     bindE (get_full_cpp_type_name (desc_full_name d)) (\<lambda>cpp_type.
     bindE (deref (parent (node_at g n))) (\<lambda>p.
     Inr (Case (state (node_at g n)) (full_name (node_at g n))
            [ClearField cpp_type (name (node_at g n)),
             SetLocation (state (node_at g p))])))) = Inr c"
    by (simp add: printNullStateImpl_def Let_def)
  then have "case_label c = state (node_at g n) \<and>
        (\<exists>d T p. desc (node_at g n) = Some d \<and>
           get_full_cpp_type_name (desc_full_name d) = Inr T \<and>
           parent (node_at g n) = Some p \<and>
           case_body c = [ClearField T (name (node_at g n)), SetLocation (state (node_at g p))])"
  proof (cases rule: bindE_E)
    case a1: (bind d)
    from a1(1) have d: "desc (node_at g n) = Some d" by (cases rule: deref_E)
    from a1(2) show ?thesis
    proof (cases rule: bindE_E)
      case a2: (bind T)
      from a2(2) show ?thesis
      proof (cases rule: bindE_E)
        case a3: (bind p)
        from a3(1) have p: "parent (node_at g n) = Some p" by (cases rule: deref_E)
        from a3(2) have "c = Case (state (node_at g n)) (full_name (node_at g n))
            [ClearField T (name (node_at g n)), SetLocation (state (node_at g p))]"
          by simp
        then have "case_label c = state (node_at g n)"
          and "case_body c =
                 [ClearField T (name (node_at g n)), SetLocation (state (node_at g p))]"
          by simp_all
        with d a2(1) p show ?thesis by blast
      qed
    qed
  qed
  then show "case_label c = state (node_at g n)"
    and "\<exists>d T p. desc (node_at g n) = Some d \<and>
           get_full_cpp_type_name (desc_full_name d) = Inr T \<and>
           parent (node_at g n) = Some p \<and>
           case_body c = [ClearField T (name (node_at g n)), SetLocation (state (node_at g p))]"
    by blast+
qed

lemma null_nodes_member:
  assumes "inv g" and "n < length (nodes g)" and "field (nodes g ! n) = Some f"
    and "is_optional f"
  shows "n \<in> set (null_nodes g)"
proof -
  have "null_nodes g = filter (\<lambda>a. nullable (nodes g ! a)) [0..<length (nodes g)]"
    using assms(1) by (simp add: inv_def lists_ok_def)
  with assms(2,3,4) show ?thesis by (simp add: nullable_def)
qed

section \<open>The handler of \<^verbatim>\<open>null\<close> inside an optional message\<close>

text \<open>
  Claim C9. In every graph the builder produces, the \<open>OUTSIDE_OBJECT\<close> node \<open>k\<close> of an
  optional field \<open>f\<close> and its only child, the \<open>INSIDE_OBJECT\<close> node \<open>k + 1\<close>, carry the same
  field \<open>f\<close>, and both are in \<open>null_nodes\<close>. So the emitted handler of \<^verbatim>\<open>null\<close> has a case at
  the state of the node inside the object too: it calls \<^verbatim>\<open>clear_f()\<close> on the top of the stack
  and sets the location to the state of \<open>k\<close>.
\<close>

theorem optional_message_null:
  assumes "build fuel w fn mn = Inr g" and "k < length (nodes g)"
    and "type (node_at g k) = Some OUTSIDE_OBJECT"
    and "field (node_at g k) = Some f" and "is_optional f"
  shows "k + 1 < length (nodes g) \<and> children (node_at g k) = [k + 1] \<and>
         type (node_at g (k + 1)) = Some INSIDE_OBJECT \<and>
         field (node_at g (k + 1)) = Some f \<and>
         k \<in> set (null_nodes g) \<and> k + 1 \<in> set (null_nodes g) \<and>
         (\<forall>hash hs st.
            printSourceImpl hash g = Inr hs \<longrightarrow>
            location st = state (node_at g (k + 1)) \<longrightarrow>
            (\<exists>d T c. desc (node_at g (k + 1)) = Some d \<and>
               get_full_cpp_type_name (desc_full_name d) = Inr T \<and>
               find (\<lambda>c. case_label c = state (node_at g (k + 1))) (parse_null hs) = Some c \<and>
               case_body c = [ClearField T (field_name f), SetLocation (state (node_at g k))] \<and>
               (msgStack st \<noteq> [] \<longrightarrow>
                  callback hash hs yajl_null st =
                    Inr (st\<lparr>calls := calls st @ [Clear (last (msgStack st)) T (field_name f)],
                           location := state (node_at g k)\<rparr>))))"
proof -
  have i: "inv g" and cl: "closed g" using assms(1) by (rule build_inv)+
  have l: "lists_ok g" using i by (simp add: inv_def)
  have t: "type (nodes g ! k) \<in> {Some ARRAY, Some OUTSIDE_OBJECT}"
    using assms(3) by (simp add: node_at_def)
  note s = inv_single [OF i cl assms(2) t]
  from s(4) obtain f' where f': "field (nodes g ! (k + 1)) = Some f'"
    and nm: "name (nodes g ! (k + 1)) = field_name f'"
    and o: "type (nodes g ! k) = Some OUTSIDE_OBJECT \<longrightarrow>
              type (nodes g ! (k + 1)) = Some INSIDE_OBJECT \<and> field (nodes g ! k) = Some f'"
    unfolding link_def by blast
  from o assms(3,4) have ti: "type (nodes g ! (k + 1)) = Some INSIDE_OBJECT" and ff: "f' = f"
    by (simp_all add: node_at_def)
  have m0: "k \<in> set (null_nodes g)"
    using i assms(2) assms(4) [unfolded node_at_def] assms(5) by (rule null_nodes_member)
  have m1: "k + 1 \<in> set (null_nodes g)"
    using i s(1) f' [unfolded ff] assms(5) by (rule null_nodes_member)
  have h: "\<exists>d T c. desc (node_at g (k + 1)) = Some d \<and>
               get_full_cpp_type_name (desc_full_name d) = Inr T \<and>
               find (\<lambda>c. case_label c = state (node_at g (k + 1))) (parse_null hs) = Some c \<and>
               case_body c = [ClearField T (field_name f), SetLocation (state (node_at g k))] \<and>
               (msgStack st \<noteq> [] \<longrightarrow>
                  callback hash hs yajl_null st =
                    Inr (st\<lparr>calls := calls st @ [Clear (last (msgStack st)) T (field_name f)],
                           location := state (node_at g k)\<rparr>))"
    if p: "printSourceImpl hash g = Inr hs" and loc: "location st = state (node_at g (k + 1))"
    for hash hs st
  proof -
    have e: "mapE (printNullStateImpl g) (null_nodes g) = Inr (parse_null hs)"
      using printSourceImpl_parts(1) [OF p] by (simp add: printNullImpl_def)
    have "\<exists>c. printNullStateImpl g (k + 1) = Inr c \<and>
            find (\<lambda>c. case_label c = state (node_at g (k + 1))) (parse_null hs) = Some c"
      using e m1
    proof (rule mapE_find)
      fix m c assume "printNullStateImpl g m = Inr c"
      then show "case_label c = state (node_at g m)" by (rule printNull_case(1))
    next
      show "inj_on (\<lambda>a. state (node_at g a)) (set (null_nodes g))"
        using i lists_ok_bounds(1) [OF l] by (rule inv_state_inj)
    qed
    then obtain c where c: "printNullStateImpl g (k + 1) = Inr c"
      and f: "find (\<lambda>c. case_label c = state (node_at g (k + 1))) (parse_null hs) = Some c"
      by blast
    from printNull_case(2) [OF c] obtain d T p where
      d: "desc (node_at g (k + 1)) = Some d"
      and T: "get_full_cpp_type_name (desc_full_name d) = Inr T"
      and pp: "parent (node_at g (k + 1)) = Some p"
      and body: "case_body c = [ClearField T (name (node_at g (k + 1))),
                                SetLocation (state (node_at g p))]"
      by blast
    from pp s(3) have pk: "p = k" by (simp add: node_at_def)
    from nm ff have nf: "name (node_at g (k + 1)) = field_name f" by (simp add: node_at_def)
    from body pk nf have b: "case_body c =
        [ClearField T (field_name f), SetLocation (state (node_at g k))]"
      by simp
    have cb: "callback hash hs yajl_null st = exec_body hash yajl_null (case_body c) st"
      using f loc by (simp add: callback_def switch_location_def)
    have "msgStack st \<noteq> [] \<longrightarrow>
            callback hash hs yajl_null st =
              Inr (st\<lparr>calls := calls st @ [Clear (last (msgStack st)) T (field_name f)],
                     location := state (node_at g k)\<rparr>)"
      using cb b by simp
    with d T f b show ?thesis by blast
  qed
  have c1: "k + 1 < length (nodes g)" by (rule s(1))
  have c2: "children (node_at g k) = [k + 1]" using s(2) by (simp add: node_at_def)
  have c3: "type (node_at g (k + 1)) = Some INSIDE_OBJECT" using ti by (simp add: node_at_def)
  have c4: "field (node_at g (k + 1)) = Some f" using f' ff by (simp add: node_at_def)
  from c1 c2 c3 c4 m0 m1 h show ?thesis by blast
qed

theorem optional_message_null_witness:
  "(case build 2 demo_world ''demo.proto'' ''demo.Shape'' of
      Inl e \<Rightarrow> False
    | Inr g \<Rightarrow>
        (case printSourceImpl demo_hash g of
           Inl e \<Rightarrow> False
         | Inr hs \<Rightarrow>
             type (node_at g 2) = Some OUTSIDE_OBJECT \<and>
             field (node_at g 2) = Some (message_field ''origin'' LABEL_OPTIONAL ''demo.Point'') \<and>
             null_nodes g = [2, 3, 4, 5, 9, 10, 11, 12] \<and>
             children (node_at g 2) = [3] \<and>
             type (node_at g 3) = Some INSIDE_OBJECT \<and>
             field (node_at g 3) = Some (message_field ''origin'' LABEL_OPTIONAL ''demo.Point'') \<and>
             2 \<in> set (null_nodes g) \<and> 3 \<in> set (null_nodes g) \<and>
             state (node_at g 2) = 3 \<and> state (node_at g 3) = 4 \<and>
             callback demo_hash hs yajl_null
               \<lparr>checkInitialized = True, location = 4,
                msgStack = [Req, Sub Req ''mutable'' ''origin''], calls = []\<rparr> =
               Inr \<lparr>checkInitialized = True, location = 3,
                     msgStack = [Req, Sub Req ''mutable'' ''origin''],
                     calls = [Clear (Sub Req ''mutable'' ''origin'') ''::demo::Shape''
                                ''origin'']\<rparr>))"
proof (cases "build 2 demo_world ''demo.proto'' ''demo.Shape''")
  case (Inl e)
  moreover have "\<not> isl (build 2 demo_world ''demo.proto'' ''demo.Shape'')"
    by code_simp
  ultimately show ?thesis by simp
next
  case g: (Inr g)
  define f where "f = message_field ''origin'' LABEL_OPTIONAL ''demo.Point''"
  have "(case build 2 demo_world ''demo.proto'' ''demo.Shape'' of
           Inl e \<Rightarrow> False
         | Inr g \<Rightarrow> \<not> isl (printSourceImpl demo_hash g) \<and>
             2 < length (nodes g) \<and> type (node_at g 2) = Some OUTSIDE_OBJECT \<and>
             field (node_at g 2) = Some (message_field ''origin'' LABEL_OPTIONAL ''demo.Point'') \<and>
             is_optional (message_field ''origin'' LABEL_OPTIONAL ''demo.Point'') \<and>
             field_name (message_field ''origin'' LABEL_OPTIONAL ''demo.Point'') = ''origin'' \<and>
             null_nodes g = [2, 3, 4, 5, 9, 10, 11, 12] \<and>
             state (node_at g 2) = 3 \<and> state (node_at g 3) = 4 \<and>
             get_full_cpp_type_name (desc_full_name (the (desc (node_at g 3)))) =
               Inr ''::demo::Shape'')"
    by code_simp
  with g have p: "\<not> isl (printSourceImpl demo_hash g)"
    and n: "2 < length (nodes g)" and t: "type (node_at g 2) = Some OUTSIDE_OBJECT"
    and fd: "field (node_at g 2) = Some f" and op: "is_optional f"
    and fn: "field_name f = ''origin''"
    and nl: "null_nodes g = [2, 3, 4, 5, 9, 10, 11, 12]"
    and s2: "state (node_at g 2) = 3" and s3: "state (node_at g 3) = 4"
    and T: "get_full_cpp_type_name (desc_full_name (the (desc (node_at g 3)))) =
               Inr ''::demo::Shape''"
    by (simp_all add: f_def)
  show ?thesis
  proof (cases "printSourceImpl demo_hash g")
    case (Inl e)
    with p show ?thesis by simp
  next
    case (Inr hs)
    define st where "st = \<lparr>checkInitialized = True, location = 4,
      msgStack = [Req, Sub Req ''mutable'' ''origin''], calls = []\<rparr>"
    have l: "location st = state (node_at g (2 + 1))" using s3 by (simp add: st_def)
    have m: "msgStack st \<noteq> []" by (simp add: st_def)
    note th = optional_message_null [OF g n t fd op]
    from th have a: "children (node_at g 2) = [3]"
      "type (node_at g 3) = Some INSIDE_OBJECT" "field (node_at g 3) = Some f"
      "2 \<in> set (null_nodes g)" "3 \<in> set (null_nodes g)"
      by simp_all
    from th Inr l have
      "\<exists>d T c. desc (node_at g (2 + 1)) = Some d \<and>
               get_full_cpp_type_name (desc_full_name d) = Inr T \<and>
               find (\<lambda>c. case_label c = state (node_at g (2 + 1))) (parse_null hs) = Some c \<and>
               case_body c = [ClearField T (field_name f), SetLocation (state (node_at g 2))] \<and>
               (msgStack st \<noteq> [] \<longrightarrow>
                  callback demo_hash hs yajl_null st =
                    Inr (st\<lparr>calls := calls st @ [Clear (last (msgStack st)) T (field_name f)],
                           location := state (node_at g 2)\<rparr>))"
      by blast
    then obtain d T' where "desc (node_at g (2 + 1)) = Some d"
      and "get_full_cpp_type_name (desc_full_name d) = Inr T'"
      and "msgStack st \<noteq> [] \<longrightarrow>
                  callback demo_hash hs yajl_null st =
                    Inr (st\<lparr>calls := calls st @ [Clear (last (msgStack st)) T' (field_name f)],
                           location := state (node_at g 2)\<rparr>)"
      by blast
    with T m have "callback demo_hash hs yajl_null st =
        Inr (st\<lparr>calls := calls st @ [Clear (last (msgStack st)) ''::demo::Shape'' (field_name f)],
               location := state (node_at g 2)\<rparr>)"
      by auto
    then have "callback demo_hash hs yajl_null
               \<lparr>checkInitialized = True, location = 4,
                msgStack = [Req, Sub Req ''mutable'' ''origin''], calls = []\<rparr> =
               Inr \<lparr>checkInitialized = True, location = 3,
                     msgStack = [Req, Sub Req ''mutable'' ''origin''],
                     calls = [Clear (Sub Req ''mutable'' ''origin'') ''::demo::Shape''
                                ''origin'']\<rparr>"
      by (simp add: st_def fn s2)
    with g Inr a t fd nl s2 s3 show ?thesis by (simp add: f_def)
  qed
qed

section \<open>The flag \<^verbatim>\<open>checkInitialized\<close>\<close>

text \<open>
  Claim C10. \<^verbatim>\<open><t>_parser_init\<close> sets \<^verbatim>\<open>config.checkInitialized\<close>, and no operation of the
  emitted API changes the flag. So in a state that comes from \<^verbatim>\<open>init\<close>, also inside
  \<^verbatim>\<open><t>_parser_easy\<close>, every \<^verbatim>\<open>end_map\<close> event calls \<^verbatim>\<open>CheckInitialized()\<close> on the top of the
  stack: the handler logs the call before its switch, and the log holds as many such calls
  as \<^verbatim>\<open>end_map\<close> events were delivered.
\<close>

theorem check_initialized_always:
  "checkInitialized parser_init \<and>
   (\<forall>hash hs c st rc st'.
      api_call hash hs c st = Inr (rc, st') \<longrightarrow> checkInitialized st' = checkInitialized st) \<and>
   (\<forall>hash hs st st'.
      checkInitialized st \<longrightarrow> callback hash hs yajl_end_map st = Inr st' \<longrightarrow>
      msgStack st \<noteq> [] \<and> checkInitialized st' \<and>
      (\<exists>cs. calls st' = calls st @ CheckInitialized (last (msgStack st)) # cs \<and>
            checks cs = 0)) \<and>
   (\<forall>hash hs cs st.
      api_calls hash hs cs parser_init = Inr st \<longrightarrow>
      checkInitialized st \<and> checks (calls st) = end_maps (concat (map api_events cs))) \<and>
   (\<forall>hash hs evs1 ok1 evs2 ok2 st.
      parser_easy hash hs evs1 ok1 evs2 ok2 = Inr st \<longrightarrow>
      checkInitialized st \<and> checks (calls st) = end_maps (evs1 @ evs2))"
proof (intro conjI allI impI)
  show "checkInitialized parser_init" by (simp add: parser_init_def)
next
  fix hash hs c st rc st'
  assume "api_call hash hs c st = Inr (rc, st')"
  then show "checkInitialized st' = checkInitialized st" by (rule api_call_flag)
next
  fix hash hs st st'
  assume f: "checkInitialized st" and c: "callback hash hs yajl_end_map st = Inr st'"
  from c f show "msgStack st \<noteq> []" by (rule callback_end_map(1))
  from c f show "checkInitialized st'" by (rule callback_end_map(2))
  from c f show "\<exists>cs. calls st' = calls st @ CheckInitialized (last (msgStack st)) # cs \<and>
      checks cs = 0"
    by (rule callback_end_map(3))
next
  fix hash hs cs st
  assume a: "api_calls hash hs cs parser_init = Inr st"
  have i: "checkInitialized parser_init" by (simp add: parser_init_def)
  have z: "checks (calls parser_init) = 0" by (simp add: parser_init_def checks_def)
  from api_calls_count [OF a i] z
  show "checkInitialized st" and "checks (calls st) = end_maps (concat (map api_events cs))"
    by simp_all
next
  fix hash hs evs1 ok1 evs2 ok2 st
  assume a: "parser_easy hash hs evs1 ok1 evs2 ok2 = Inr st"
  from parser_easy_count [OF a]
  show "checkInitialized st" and "checks (calls st) = end_maps (evs1 @ evs2)"
    by simp_all
qed

theorem check_initialized_always_witness:
  "(case build 2 demo_world ''demo.proto'' ''demo.Shape'' of
      Inl e \<Rightarrow> False
    | Inr g \<Rightarrow>
        (case printSourceImpl demo_hash g of
           Inl e \<Rightarrow> False
         | Inr hs \<Rightarrow>
             (case parser_easy demo_hash hs
                     [yajl_start_map, yajl_map_key ''origin'', yajl_start_map, yajl_end_map]
                     True [yajl_end_map] True of
                Inl f \<Rightarrow> False
              | Inr st \<Rightarrow>
                  calls st = [CheckInitialized (Sub Req ''mutable'' ''origin''),
                              CheckInitialized Req] \<and>
                  location st = 0 \<and> msgStack st = [] \<and>
                  checkInitialized st \<and> checks (calls st) = 2)))"
proof (cases "build 2 demo_world ''demo.proto'' ''demo.Shape''")
  case (Inl e)
  moreover have "\<not> isl (build 2 demo_world ''demo.proto'' ''demo.Shape'')"
    by code_simp
  ultimately show ?thesis by simp
next
  case g: (Inr g)
  have "(case build 2 demo_world ''demo.proto'' ''demo.Shape'' of
           Inl e \<Rightarrow> False
         | Inr g \<Rightarrow>
             (case printSourceImpl demo_hash g of
                Inl e \<Rightarrow> False
              | Inr hs \<Rightarrow>
                  (case parser_easy demo_hash hs
                          [yajl_start_map, yajl_map_key ''origin'', yajl_start_map, yajl_end_map]
                          True [yajl_end_map] True of
                     Inl f \<Rightarrow> False
                   | Inr st \<Rightarrow>
                       calls st = [CheckInitialized (Sub Req ''mutable'' ''origin''),
                                   CheckInitialized Req] \<and>
                       location st = 0 \<and> msgStack st = [])))"
    by code_simp
  with g have p: "(case printSourceImpl demo_hash g of
                Inl e \<Rightarrow> False
              | Inr hs \<Rightarrow>
                  (case parser_easy demo_hash hs
                          [yajl_start_map, yajl_map_key ''origin'', yajl_start_map, yajl_end_map]
                          True [yajl_end_map] True of
                     Inl f \<Rightarrow> False
                   | Inr st \<Rightarrow>
                       calls st = [CheckInitialized (Sub Req ''mutable'' ''origin''),
                                   CheckInitialized Req] \<and>
                       location st = 0 \<and> msgStack st = []))"
    by simp
  show ?thesis
  proof (cases "printSourceImpl demo_hash g")
    case (Inl e)
    with p show ?thesis by simp
  next
    case hs: (Inr hs)
    with p have q: "(case parser_easy demo_hash hs
                          [yajl_start_map, yajl_map_key ''origin'', yajl_start_map, yajl_end_map]
                          True [yajl_end_map] True of
                     Inl f \<Rightarrow> False
                   | Inr st \<Rightarrow>
                       calls st = [CheckInitialized (Sub Req ''mutable'' ''origin''),
                                   CheckInitialized Req] \<and>
                       location st = 0 \<and> msgStack st = [])"
      by simp
    show ?thesis
    proof (cases "parser_easy demo_hash hs
                    [yajl_start_map, yajl_map_key ''origin'', yajl_start_map, yajl_end_map]
                    True [yajl_end_map] True")
      case (Inl f)
      with q show ?thesis by simp
    next
      case st: (Inr st)
      with q have r: "calls st = [CheckInitialized (Sub Req ''mutable'' ''origin''),
                                  CheckInitialized Req]"
        "location st = 0" "msgStack st = []"
        by simp_all
      from check_initialized_always st
      have "checkInitialized st \<and>
            checks (calls st) =
              end_maps ([yajl_start_map, yajl_map_key ''origin'', yajl_start_map, yajl_end_map] @
                        [yajl_end_map])"
        by blast
      then have "checkInitialized st" and "checks (calls st) = 2"
        by (simp_all add: end_maps_def)
      with g hs st r show ?thesis by simp
    qed
  qed
qed

section \<open>How the generator ends\<close>

text \<open>
  Claim C3, corrected. \<^verbatim>\<open>main\<close> returns 0 exactly when the graph is built and the files are
  printed, and ends with \<^verbatim>\<open>exit(1)\<close> exactly when the number of arguments is wrong. Every
  other failure is an exception that leaves \<^verbatim>\<open>main\<close>, which has no handler: a file that
  cannot be opened, parsed or loaded and a message type that is not found each throw
  \<^verbatim>\<open>std::runtime_error\<close> with a message of their own, and so does any failure of the builder
  (an unsupported field type). A failed \<^verbatim>\<open>fopen\<close> of an output file is not tested. None of
  these is an exit with code 1.
\<close>

theorem main_outcomes:
  "(main fuel w hash argv = Exit 1 \<longleftrightarrow> length argv \<noteq> 4) \<and>
   (main fuel w hash argv = Exit 0 \<longleftrightarrow>
      length argv = 4 \<and>
      (\<exists>g. build fuel w (argv ! 1) (argv ! 3) = Inr g \<and>
           \<not> isl (Printer_print w hash g (argv ! 2)))) \<and>
   (length argv = 4 \<longrightarrow>
      (\<not> open_rdonly w (argv ! 1) \<longrightarrow>
         main fuel w hash argv =
           Abnormal (runtime_error (''Unable to open proto file '' @ argv ! 1))) \<and>
      (open_rdonly w (argv ! 1) \<longrightarrow> \<not> Parse w (argv ! 1) \<longrightarrow>
         main fuel w hash argv =
           Abnormal (runtime_error (''Unable to parse proto file '' @ argv ! 1))) \<and>
      (open_rdonly w (argv ! 1) \<longrightarrow> Parse w (argv ! 1) \<longrightarrow> BuildFile w (argv ! 1) = None \<longrightarrow>
         main fuel w hash argv =
           Abnormal (runtime_error (''Unable to load proto file '' @ argv ! 1))) \<and>
      (\<forall>fd pl. open_rdonly w (argv ! 1) \<longrightarrow> Parse w (argv ! 1) \<longrightarrow>
         BuildFile w (argv ! 1) = Some (fd, pl) \<longrightarrow> pl (argv ! 3) = None \<longrightarrow>
         main fuel w hash argv =
           Abnormal (runtime_error (''Unable to find message type '' @ argv ! 3))) \<and>
      (\<forall>e. build fuel w (argv ! 1) (argv ! 3) = Inl e \<longrightarrow>
         main fuel w hash argv = Abnormal e) \<and>
      (\<forall>g rd T. build fuel w (argv ! 1) (argv ! 3) = Inr g \<longrightarrow>
         desc (node_at g root) = Some rd \<longrightarrow>
         get_full_cpp_type_name (desc_full_name rd) = Inr T \<longrightarrow>
         \<not> fopen_w w (map tolower (desc_name rd) @ ''_parser.pb.h'') \<longrightarrow>
         main fuel w hash argv = Abnormal null_dereference))"
proof (cases "length argv = 4")
  case False
  then show ?thesis by (simp add: main_def)
next
  case l: True
  have m: "main fuel w hash argv =
      (case build fuel w (argv ! 1) (argv ! 3) of
         Inl e \<Rightarrow> Abnormal e
       | Inr graph \<Rightarrow>
           (case Printer_print w hash graph (argv ! 2) of
              Inl e \<Rightarrow> Abnormal e
            | Inr files \<Rightarrow> Exit 0))"
    using l by (simp add: main_def Let_def)
  have a: "main fuel w hash argv = Exit 1 \<longleftrightarrow> length argv \<noteq> 4"
    using l unfolding m by (simp split: sum.splits)
  have b: "main fuel w hash argv = Exit 0 \<longleftrightarrow>
      length argv = 4 \<and>
      (\<exists>g. build fuel w (argv ! 1) (argv ! 3) = Inr g \<and>
           \<not> isl (Printer_print w hash g (argv ! 2)))"
    using l unfolding m by (auto split: sum.splits)
  have c1: "main fuel w hash argv =
      Abnormal (runtime_error (''Unable to open proto file '' @ argv ! 1))"
    if "\<not> open_rdonly w (argv ! 1)"
    using that unfolding m by (simp add: build_def Graph_init_def)
  have c2: "main fuel w hash argv =
      Abnormal (runtime_error (''Unable to parse proto file '' @ argv ! 1))"
    if "open_rdonly w (argv ! 1)" and "\<not> Parse w (argv ! 1)"
    using that unfolding m by (simp add: build_def Graph_init_def)
  have c3: "main fuel w hash argv =
      Abnormal (runtime_error (''Unable to load proto file '' @ argv ! 1))"
    if "open_rdonly w (argv ! 1)" and "Parse w (argv ! 1)" and "BuildFile w (argv ! 1) = None"
    using that unfolding m by (simp add: build_def Graph_init_def)
  have c4: "main fuel w hash argv =
      Abnormal (runtime_error (''Unable to find message type '' @ argv ! 3))"
    if "open_rdonly w (argv ! 1)" and "Parse w (argv ! 1)"
      and "BuildFile w (argv ! 1) = Some (fd, pl)" and "pl (argv ! 3) = None"
    for fd pl
    using that unfolding m by (simp add: build_def Graph_init_def)
  have c5: "main fuel w hash argv = Abnormal e"
    if "build fuel w (argv ! 1) (argv ! 3) = Inl e" for e
    using that unfolding m by simp
  have c6: "main fuel w hash argv = Abnormal null_dereference"
    if "build fuel w (argv ! 1) (argv ! 3) = Inr g" and "desc (node_at g root) = Some rd"
      and "get_full_cpp_type_name (desc_full_name rd) = Inr T"
      and "\<not> fopen_w w (map tolower (desc_name rd) @ ''_parser.pb.h'')"
    for g rd T
  proof -
    from that(2,3,4) have "Printer_print w hash g (argv ! 2) = Inl null_dereference"
      by (simp add: Printer_print_def bindE_def deref_def Let_def)
    with that(1) show ?thesis unfolding m by simp
  qed
  from a b l c1 c2 c3 c4 c5 c6 show ?thesis by blast
qed

theorem main_outcomes_witness:
  "main 2 demo_world demo_hash [''protog'', ''demo.proto'', ''demo.Shape''] = Exit 1 \<and>
   main 2 demo_world demo_hash [''protog'', ''demo.proto'', ''demo.pb.h'', ''demo.Shape''] = Exit 0 \<and>
   main 2 demo_world demo_hash [''protog'', ''none.proto'', ''demo.pb.h'', ''demo.Shape''] =
     Abnormal (runtime_error ''Unable to open proto file none.proto'') \<and>
   main 2 (demo_world\<lparr>Parse := \<lambda>f. False\<rparr>) demo_hash
        [''protog'', ''demo.proto'', ''demo.pb.h'', ''demo.Shape''] =
     Abnormal (runtime_error ''Unable to parse proto file demo.proto'') \<and>
   main 2 (demo_world\<lparr>BuildFile := \<lambda>f. None\<rparr>) demo_hash
        [''protog'', ''demo.proto'', ''demo.pb.h'', ''demo.Shape''] =
     Abnormal (runtime_error ''Unable to load proto file demo.proto'') \<and>
   main 2 demo_world demo_hash [''protog'', ''demo.proto'', ''demo.pb.h'', ''demo.Nope''] =
     Abnormal (runtime_error ''Unable to find message type demo.Nope'')"
proof -
  let ?ok = "[''protog'', ''demo.proto'', ''demo.pb.h'', ''demo.Shape'']"
  have a: "main 2 demo_world demo_hash [''protog'', ''demo.proto'', ''demo.Shape''] = Exit 1"
    using main_outcomes [of 2 demo_world demo_hash "[''protog'', ''demo.proto'', ''demo.Shape'']"]
    by simp
  have "(case build 2 demo_world ''demo.proto'' ''demo.Shape'' of
           Inl e \<Rightarrow> False
         | Inr g \<Rightarrow> \<not> isl (Printer_print demo_world demo_hash g ''demo.pb.h''))"
    by code_simp
  then have "\<exists>g. build 2 demo_world (?ok ! 1) (?ok ! 3) = Inr g \<and>
      \<not> isl (Printer_print demo_world demo_hash g (?ok ! 2))"
    by (cases "build 2 demo_world ''demo.proto'' ''demo.Shape''") simp_all
  with main_outcomes [of 2 demo_world demo_hash ?ok]
  have b: "main 2 demo_world demo_hash ?ok = Exit 0" by simp
  have c: "main 2 demo_world demo_hash [''protog'', ''none.proto'', ''demo.pb.h'', ''demo.Shape''] =
     Abnormal (runtime_error ''Unable to open proto file none.proto'')"
    using main_outcomes [of 2 demo_world demo_hash
        "[''protog'', ''none.proto'', ''demo.pb.h'', ''demo.Shape'']"]
    by (simp add: demo_world_def)
  have d: "main 2 (demo_world\<lparr>Parse := \<lambda>f. False\<rparr>) demo_hash ?ok =
     Abnormal (runtime_error ''Unable to parse proto file demo.proto'')"
    using main_outcomes [of 2 "demo_world\<lparr>Parse := \<lambda>f. False\<rparr>" demo_hash ?ok]
    by (simp add: demo_world_def)
  have e: "main 2 (demo_world\<lparr>BuildFile := \<lambda>f. None\<rparr>) demo_hash ?ok =
     Abnormal (runtime_error ''Unable to load proto file demo.proto'')"
    using main_outcomes [of 2 "demo_world\<lparr>BuildFile := \<lambda>f. None\<rparr>" demo_hash ?ok]
    by (simp add: demo_world_def)
  have "demo_pool ''demo.Nope'' = None" by (simp add: demo_pool_def)
  then have f: "main 2 demo_world demo_hash
        [''protog'', ''demo.proto'', ''demo.pb.h'', ''demo.Nope''] =
     Abnormal (runtime_error ''Unable to find message type demo.Nope'')"
    using main_outcomes [of 2 demo_world demo_hash
        "[''protog'', ''demo.proto'', ''demo.pb.h'', ''demo.Nope'']"]
    by (simp add: demo_world_def)
  from a b c d e f show ?thesis by simp
qed

text \<open>
  The claim as the specification has it fails: a message type that is not in the schema,
  and a field of an unsupported type, end the generator with an exception and not with
  \<^verbatim>\<open>exit(1)\<close>.
\<close>

theorem main_exit_counterexample:
  "main 2 demo_world demo_hash [''protog'', ''demo.proto'', ''demo.pb.h'', ''demo.Nope''] =
     Abnormal (runtime_error ''Unable to find message type demo.Nope'') \<and>
   main 2 demo_world demo_hash [''protog'', ''demo.proto'', ''demo.pb.h'', ''demo.Nope''] \<noteq>
     Exit 1 \<and>
   main 2 demo_world demo_hash [''protog'', ''demo.proto'', ''demo.pb.h'', ''demo.Blob''] =
     Abnormal (runtime_error ''Unsupported protobuf type 12'') \<and>
   main 2 demo_world demo_hash [''protog'', ''demo.proto'', ''demo.pb.h'', ''demo.Blob''] \<noteq>
     Exit 1"
  by code_simp

lemma printMapKeyImpl_total:
  "printMapKeyImpl hash g ns =
     Inr (map (\<lambda>n. Case (state (node_at g n)) (full_name (node_at g n))
                 [HashSwitch
                    (map (\<lambda>child. (hash (name (node_at g child)), name (node_at g child),
                                    state (node_at g child)))
                       (children (node_at g n)))
                    (full_name (node_at g n))]) ns)"
  unfolding printMapKeyImpl_def
  by (induction ns) (simp_all add: printMapKeyStateImpl_def bindE_def Let_def)

lemma Printer_print_error:
  assumes "Printer_print w hash g h = Inl e"
  shows "Printer_print w hash' g h = Inl e"
proof -
  have p: "printSourceImpl hash' g = Inl x" if "printSourceImpl hash g = Inl x" for x
    using that unfolding printSourceImpl_def printMapKeyImpl_total
    by (simp add: bindE_def split: sum.splits)
  have s: "printSource hash' g t c = Inl x" if "printSource hash g t c = Inl x" for t c x
    using that p by (auto simp: printSource_def bindE_def split: sum.splits)
  show ?thesis
  proof (cases "deref (desc (node_at g root))")
    case (Inl x)
    with assms show ?thesis by (simp add: Printer_print_def bindE_def)
  next
    case rd: (Inr rd)
    show ?thesis
    proof (cases "get_full_cpp_type_name (desc_full_name rd)")
      case (Inl x)
      with rd assms show ?thesis by (simp add: Printer_print_def bindE_def Let_def)
    next
      case (Inr T)
      with rd assms s [of "map tolower (desc_name rd)" T] show ?thesis
        by (auto simp: Printer_print_def bindE_def Let_def split: sum.splits if_splits)
    qed
  qed
qed

section \<open>Keys with the same hash\<close>

text \<open>
  Claim C5, corrected. The generator does not look for keys with the same hash.
  \<^verbatim>\<open>printMapKeyImpl\<close> cannot fail: for every node it prints the inner switch with one case
  per child, labelled with the hash of the child's name. When two children of a node have
  names with the same hash, the inner switch is printed with the same label twice. The way
  the generator ends does not depend on the hash function at all.
\<close>

theorem key_hash_collisions:
  "main fuel w hash argv = main fuel w hash' argv \<and>
   printMapKeyImpl hash g ns =
     Inr (map (\<lambda>n. Case (state (node_at g n)) (full_name (node_at g n))
                 [HashSwitch
                    (map (\<lambda>child. (hash (name (node_at g child)), name (node_at g child),
                                    state (node_at g child)))
                       (children (node_at g n)))
                    (full_name (node_at g n))]) ns) \<and>
   (\<forall>i j. i < j \<longrightarrow> j < length (children (node_at g n)) \<longrightarrow>
      hash (name (node_at g (children (node_at g n) ! i))) =
        hash (name (node_at g (children (node_at g n) ! j))) \<longrightarrow>
      (\<exists>cs. printMapKeyStateImpl hash g n =
               Inr (Case (state (node_at g n)) (full_name (node_at g n))
                      [HashSwitch cs (full_name (node_at g n))]) \<and>
            length cs = length (children (node_at g n)) \<and>
            fst (cs ! i) = fst (cs ! j) \<and>
            \<not> distinct (map fst cs)))"
proof (intro conjI allI impI)
  show "main fuel w hash argv = main fuel w hash' argv"
  proof (cases "length argv = 4")
    case False
    then show ?thesis by (simp add: main_def)
  next
    case True
    show ?thesis
    proof (cases "build fuel w (argv ! 1) (argv ! 3)")
      case (Inl e)
      with True show ?thesis by (simp add: main_def Let_def)
    next
      case g: (Inr gr)
      show ?thesis
      proof (cases "Printer_print w hash gr (argv ! 2)")
        case (Inl e)
        from Printer_print_error [OF this] Inl g True show ?thesis
          by (simp add: main_def Let_def)
      next
        case (Inr files)
        have "Printer_print w hash' gr (argv ! 2) \<noteq> Inl e" for e
        proof
          assume "Printer_print w hash' gr (argv ! 2) = Inl e"
          from Printer_print_error [OF this, of hash] Inr show False by simp
        qed
        then obtain files' where "Printer_print w hash' gr (argv ! 2) = Inr files'"
          by (cases "Printer_print w hash' gr (argv ! 2)") blast+
        with Inr g True show ?thesis by (simp add: main_def Let_def)
      qed
    qed
  qed
next
  show "printMapKeyImpl hash g ns =
     Inr (map (\<lambda>n. Case (state (node_at g n)) (full_name (node_at g n))
                 [HashSwitch
                    (map (\<lambda>child. (hash (name (node_at g child)), name (node_at g child),
                                    state (node_at g child)))
                       (children (node_at g n)))
                    (full_name (node_at g n))]) ns)"
    by (rule printMapKeyImpl_total)
next
  fix i j
  assume ij: "i < j" and j: "j < length (children (node_at g n))"
    and h: "hash (name (node_at g (children (node_at g n) ! i))) =
            hash (name (node_at g (children (node_at g n) ! j)))"
  define cs where "cs = map (\<lambda>child. (hash (name (node_at g child)), name (node_at g child),
                                    state (node_at g child))) (children (node_at g n))"
  have p: "printMapKeyStateImpl hash g n =
               Inr (Case (state (node_at g n)) (full_name (node_at g n))
                      [HashSwitch cs (full_name (node_at g n))])"
    by (simp add: printMapKeyStateImpl_def Let_def cs_def)
  have l: "length cs = length (children (node_at g n))" by (simp add: cs_def)
  from ij j have i: "i < length (children (node_at g n))" by simp
  have e: "fst (cs ! i) = fst (cs ! j)" using h i j by (simp add: cs_def)
  have "\<not> distinct (map fst cs)"
  proof
    assume d: "distinct (map fst cs)"
    have q: "map fst cs ! i = map fst cs ! j" using e i j l by simp
    have r: "i < length (map fst cs)" "j < length (map fst cs)" using i j l by simp_all
    from nth_eq_iff_index_eq [OF d r] q have "i = j" by blast
    with ij show False by simp
  qed
  with p l e show "\<exists>cs. printMapKeyStateImpl hash g n =
               Inr (Case (state (node_at g n)) (full_name (node_at g n))
                      [HashSwitch cs (full_name (node_at g n))]) \<and>
            length cs = length (children (node_at g n)) \<and>
            fst (cs ! i) = fst (cs ! j) \<and>
            \<not> distinct (map fst cs)"
    by blast
qed

theorem key_hash_collisions_witness:
  "(case build 2 demo_world ''demo.proto'' ''demo.Shape'' of
      Inl e \<Rightarrow> False
    | Inr g \<Rightarrow>
        children (node_at g 3) = [4, 5] \<and>
        name (node_at g 4) = ''x'' \<and> name (node_at g 5) = ''y'' \<and>
        demo_hash ''x'' = demo_hash ''y'' \<and>
        (\<exists>cs. printMapKeyStateImpl demo_hash g 3 =
                 Inr (Case (state (node_at g 3)) (full_name (node_at g 3))
                        [HashSwitch cs (full_name (node_at g 3))]) \<and>
              length cs = 2 \<and> fst (cs ! 0) = fst (cs ! 1) \<and> \<not> distinct (map fst cs)))"
proof (cases "build 2 demo_world ''demo.proto'' ''demo.Shape''")
  case (Inl e)
  moreover have "\<not> isl (build 2 demo_world ''demo.proto'' ''demo.Shape'')"
    by code_simp
  ultimately show ?thesis by simp
next
  case g: (Inr g)
  have "(case build 2 demo_world ''demo.proto'' ''demo.Shape'' of
           Inl e \<Rightarrow> False
         | Inr g \<Rightarrow> children (node_at g 3) = [4, 5] \<and>
             name (node_at g 4) = ''x'' \<and> name (node_at g 5) = ''y'')"
    by code_simp
  with g have c: "children (node_at g 3) = [4, 5]"
    and x: "name (node_at g 4) = ''x''" and y: "name (node_at g 5) = ''y''"
    by simp_all
  have h: "demo_hash ''x'' = demo_hash ''y''" by (simp add: demo_hash_def)
  have a: "(0::nat) < 1" by simp
  have b: "1 < length (children (node_at g 3))" using c by simp
  have e: "demo_hash (name (node_at g (children (node_at g 3) ! 0))) =
           demo_hash (name (node_at g (children (node_at g 3) ! 1)))"
    using c x y h by simp
  note th = key_hash_collisions
    [where hash = demo_hash and g = g and n = 3, THEN conjunct2, THEN conjunct2]
  from th a b e
  have "\<exists>cs. printMapKeyStateImpl demo_hash g 3 =
               Inr (Case (state (node_at g 3)) (full_name (node_at g 3))
                      [HashSwitch cs (full_name (node_at g 3))]) \<and>
            length cs = length (children (node_at g 3)) \<and>
            fst (cs ! 0) = fst (cs ! 1) \<and>
            \<not> distinct (map fst cs)"
    by blast
  with c have "\<exists>cs. printMapKeyStateImpl demo_hash g 3 =
               Inr (Case (state (node_at g 3)) (full_name (node_at g 3))
                      [HashSwitch cs (full_name (node_at g 3))]) \<and>
            length cs = 2 \<and> fst (cs ! 0) = fst (cs ! 1) \<and> \<not> distinct (map fst cs)"
    by (simp add: numeral_2_eq_2)
  with g c x y h show ?thesis by simp
qed

text \<open>
  The claim as the specification has it fails: with a hash function under which the keys
  \<^verbatim>\<open>x\<close> and \<^verbatim>\<open>y\<close> of \<^verbatim>\<open>Point\<close> collide, the generator ends with 0, and the inner switch it
  prints for the keys of \<^verbatim>\<open>origin\<close> has the label 1 twice.
\<close>

theorem key_hash_collision_counterexample:
  "demo_hash ''x'' = demo_hash ''y'' \<and>
   main 2 demo_world demo_hash [''protog'', ''demo.proto'', ''demo.pb.h'', ''demo.Shape''] =
     Exit 0 \<and>
   (case build 2 demo_world ''demo.proto'' ''demo.Shape'' of
      Inl e \<Rightarrow> False
    | Inr g \<Rightarrow>
        printMapKeyStateImpl demo_hash g 3 =
          Inr (Case 4 ''.origin.'' [HashSwitch [(1, ''x'', 5), (1, ''y'', 6)] ''.origin.'']))"
  by code_simp

end
